theory Spec2Isabelle
  imports Main "HOL-Library.AList" "HOL-Library.Char_ord" "HOL-Library.List_Lexorder"
    "HOL-Library.Multiset" "HOL-Library.Word"
begin

section \<open>Values and exceptions\<close>

text \<open>
  Schema documents are JSON trees (the result of \<^verbatim>\<open>json.loads\<close>): a Python dict is an
  association list in insertion order, a Python list is a list. Numbers are integers.
\<close>

datatype json =
    JNull
  | JBool bool
  | JNum int
  | JStr string
  | JArr "json list"
  | JObj "(string \<times> json) list"

text \<open>The exceptions raised in \<^verbatim>\<open>db.py\<close> and \<^verbatim>\<open>util.py\<close>, by class.\<close>

datatype error =
    HTTPNotFound
  | HTTPConflict
  | RuntimeError
  | IntegrityError
  | JSONDecodeError
  | ValidationError
  | ValueError
  | IndexError
  | KeyError
  | TypeError
  | AttributeError

text \<open>Sequencing of steps that may raise: the first exception ends the computation.\<close>

definition ebind :: "error + 'a \<Rightarrow> ('a \<Rightarrow> error + 'b) \<Rightarrow> error + 'b" where
  "ebind m f = (case m of Inl e \<Rightarrow> Inl e | Inr x \<Rightarrow> f x)"

text \<open>\<^verbatim>\<open>d.get(k, default)\<close>: only a dict has \<^verbatim>\<open>get\<close>.\<close>

definition py_get :: "json \<Rightarrow> string \<Rightarrow> json \<Rightarrow> error + json" where
  "py_get d k dflt =
     (case d of
        JObj kvs \<Rightarrow> (case map_of kvs k of None \<Rightarrow> Inr dflt | Some v \<Rightarrow> Inr v)
      | _ \<Rightarrow> Inl AttributeError)"

text \<open>\<^verbatim>\<open>d[k]\<close> with a string key: KeyError on a dict without the key, TypeError on
  anything that is not a dict.\<close>

definition py_item :: "json \<Rightarrow> string \<Rightarrow> error + json" where
  "py_item d k =
     (case d of
        JObj kvs \<Rightarrow> (case map_of kvs k of None \<Rightarrow> Inl KeyError | Some v \<Rightarrow> Inr v)
      | _ \<Rightarrow> Inl TypeError)"

text \<open>\<^verbatim>\<open>d[k]\<close> where the source's annotations make the value a \<^verbatim>\<open>str\<close> (an identifier):
  a value of another type is outside the model and reported as TypeError.\<close>

definition py_str_item :: "json \<Rightarrow> string \<Rightarrow> error + string" where
  "py_str_item d k =
     ebind (py_item d k) (\<lambda>v. case v of JStr s \<Rightarrow> Inr s | _ \<Rightarrow> Inl TypeError)"

text \<open>\<^verbatim>\<open>d[k] = v\<close> on a dict: an existing key keeps its position, a new key goes last.\<close>

definition py_set_item :: "json \<Rightarrow> string \<Rightarrow> json \<Rightarrow> json" where
  "py_set_item d k v = (case d of JObj kvs \<Rightarrow> JObj (AList.update k v kvs) | _ \<Rightarrow> d)"

text \<open>\<^verbatim>\<open>for x in v\<close>: a list yields its elements, a dict its keys, a string its characters;
  nothing else is iterable.\<close>

definition py_iter :: "json \<Rightarrow> error + json list" where
  "py_iter v =
     (case v of
        JArr xs \<Rightarrow> Inr xs
      | JObj kvs \<Rightarrow> Inr (map (\<lambda>kv. JStr (fst kv)) kvs)
      | JStr s \<Rightarrow> Inr (map (\<lambda>c. JStr [c]) s)
      | _ \<Rightarrow> Inl TypeError)"

text \<open>\<^verbatim>\<open>s.split("/")[-1]\<close>: the part of \<open>s\<close> after its last slash.\<close>

definition last_segment :: "string \<Rightarrow> string" where
  "last_segment s = rev (takeWhile (\<lambda>c. c \<noteq> CHR ''/'') (rev s))"

section \<open>The Schema table\<close>

text \<open>
  The \<^verbatim>\<open>data\<close> column is text. \<open>Dumps j\<close> is the text \<^verbatim>\<open>json.dumps(j)\<close>, which
  \<^verbatim>\<open>json.loads\<close> reads back as \<open>j\<close>; \<open>NotJson s\<close> is a text that \<^verbatim>\<open>json.loads\<close> rejects.
\<close>

datatype stored_text = Dumps json | NotJson string

definition json_loads :: "stored_text \<Rightarrow> error + json" where
  "json_loads t = (case t of Dumps j \<Rightarrow> Inr j | NotJson s \<Rightarrow> Inl JSONDecodeError)"

text \<open>\<^verbatim>\<open>SchemasTableRow\<close>; \<^verbatim>\<open>atId\<close> is the primary key of the table
  (\<open>note_col\<close> is the column \<^verbatim>\<open>note\<close>).\<close>

record row =
  atId :: string
  lock_ts :: "int option"
  holder_id :: "string option"
  data :: stored_text
  quarantined :: int
  note_col :: "string option"

type_synonym table = "row list"

definition primary_key :: "table \<Rightarrow> bool" where
  "primary_key tbl = distinct (map atId tbl)"

definition LOCK_LIFETIME :: int where
  "LOCK_LIFETIME = 20"

text \<open>\<^verbatim>\<open>SELECT ... FROM Schema WHERE atId=?\<close>\<close>

definition select_atId :: "string \<Rightarrow> table \<Rightarrow> row list" where
  "select_atId schema_id tbl = filter (\<lambda>r. atId r = schema_id) tbl"

section \<open>Lock manager\<close>

text \<open>
  \<^verbatim>\<open>Transaction.set_lock\<close>. \<open>now\<close> is the value of \<^verbatim>\<open>_unix_now()\<close> (whole seconds) during
  the call. The validity check runs for acquisition and for release alike.
\<close>

definition lock_is_valid :: "int \<Rightarrow> row \<Rightarrow> bool" where
  "lock_is_valid now r =
     (case lock_ts r of None \<Rightarrow> False | Some ts \<Rightarrow> now - ts \<le> LOCK_LIFETIME)"

definition set_lock :: "int \<Rightarrow> bool \<Rightarrow> string \<Rightarrow> string \<Rightarrow> table \<Rightarrow> error + table" where
  "set_lock now acquire schema_id client_id tbl =
     (case select_atId schema_id tbl of
        [] \<Rightarrow> Inl HTTPNotFound
      | r # _ \<Rightarrow>
          if lock_is_valid now r \<and> holder_id r \<noteq> Some client_id then Inl HTTPConflict
          else if length (select_atId schema_id tbl) \<noteq> 1 then Inl RuntimeError
          else Inr (map (\<lambda>r. if atId r = schema_id
                              then r\<lparr>lock_ts := (if acquire then Some now else None),
                                     holder_id := (if acquire then Some client_id else None)\<rparr>
                              else r) tbl))"


text \<open>
  The statement \<^verbatim>\<open>UPDATE Schema SET data=:data, atId=:dataAtId, quarantined=0 WHERE atId=:atId\<close>.
  Moving a row onto the key of another row violates the primary key.
\<close>

definition update_schema :: "string \<Rightarrow> stored_text \<Rightarrow> string \<Rightarrow> table \<Rightarrow> error + table" where
  "update_schema schema_id d dataAtId tbl =
     (if dataAtId \<noteq> schema_id \<and> select_atId schema_id tbl \<noteq> [] \<and> select_atId dataAtId tbl \<noteq> []
      then Inl IntegrityError
      else Inr (map (\<lambda>r. if atId r = schema_id
                          then r\<lparr>data := d, atId := dataAtId, quarantined := 0\<rparr>
                          else r) tbl))"

text \<open>
  \<^verbatim>\<open>Transaction.write_schema\<close> when \<^verbatim>\<open>sdf_data["@id"]\<close> is \<^verbatim>\<open>schema_id\<close>: there
  \<^verbatim>\<open>_change_referring_schemas\<close> returns at its first line. This is the call made for each
  referring schema, whose identifier is read from the data that is written.
\<close>

definition write_schema_same_id :: "int \<Rightarrow> string \<Rightarrow> json \<Rightarrow> string \<Rightarrow> table \<Rightarrow> error + table" where
  "write_schema_same_id now schema_id sdf_data client_id tbl =
     ebind (set_lock now True schema_id client_id tbl)
       (update_schema schema_id (Dumps sdf_data) schema_id)"

text \<open>\<^verbatim>\<open>any(e.get("wd_node", None) == old_id for e in ...)\<close>, which stops at the first hit.\<close>

fun any_wd_node :: "string \<Rightarrow> json list \<Rightarrow> error + bool" where
  "any_wd_node old_id [] = Inr False"
| "any_wd_node old_id (e # es) =
     ebind (py_get e ''wd_node'' JNull)
       (\<lambda>v. if v = JStr old_id then Inr True else any_wd_node old_id es)"

definition refers_to :: "string \<Rightarrow> json \<Rightarrow> error + bool" where
  "refers_to old_id schema =
     ebind (py_get schema ''events'' (JArr [])) (\<lambda>evs.
     ebind (py_iter evs) (any_wd_node old_id))"

fun referring_schemas :: "string \<Rightarrow> json list \<Rightarrow> error + json list" where
  "referring_schemas old_id [] = Inr []"
| "referring_schemas old_id (schema # rest) =
     ebind (refers_to old_id schema) (\<lambda>b.
     ebind (referring_schemas old_id rest) (\<lambda>rs.
     Inr (if b then schema # rs else rs)))"

fun loads_all :: "stored_text list \<Rightarrow> error + json list" where
  "loads_all [] = Inr []"
| "loads_all (t # ts) =
     ebind (json_loads t) (\<lambda>j. ebind (loads_all ts) (\<lambda>js. Inr (j # js)))"

text \<open>The first loop of \<^verbatim>\<open>_change_referring_schemas\<close>: lock every referring schema.\<close>

fun lock_referring :: "int \<Rightarrow> string \<Rightarrow> json list \<Rightarrow> table \<Rightarrow> error + table" where
  "lock_referring now client_id [] tbl = Inr tbl"
| "lock_referring now client_id (ref_data # rest) tbl =
     ebind (py_str_item ref_data ''@id'') (\<lambda>ref_id.
     ebind (set_lock now True ref_id client_id tbl)
       (lock_referring now client_id rest))"

text \<open>The body of the inner loop: re-point one event.\<close>

definition repoint_event :: "string \<Rightarrow> string \<Rightarrow> json \<Rightarrow> error + json" where
  "repoint_event old_id new_id event =
     ebind (py_get event ''wd_node'' JNull) (\<lambda>v.
       if v = JStr old_id
       then Inr (py_set_item (py_set_item event ''wd_node'' (JStr new_id))
                   ''wd_label'' (JStr (last_segment new_id)))
       else Inr event)"

fun map_err :: "('a \<Rightarrow> error + 'b) \<Rightarrow> 'a list \<Rightarrow> error + 'b list" where
  "map_err f [] = Inr []"
| "map_err f (x # xs) = ebind (f x) (\<lambda>y. ebind (map_err f xs) (\<lambda>ys. Inr (y # ys)))"

text \<open>\<^verbatim>\<open>for event in ref_data["events"]: ...\<close>; the events are changed in place, so only
  a list of events can come out changed. Iterating a dict or a string hands strings to
  \<^verbatim>\<open>event.get\<close>.\<close>

definition repoint_schema :: "string \<Rightarrow> string \<Rightarrow> json \<Rightarrow> error + json" where
  "repoint_schema old_id new_id ref_data =
     ebind (py_item ref_data ''events'') (\<lambda>evs.
       case evs of
         JArr es \<Rightarrow> ebind (map_err (repoint_event old_id new_id) es)
                     (\<lambda>es'. Inr (py_set_item ref_data ''events'' (JArr es')))
       | _ \<Rightarrow> ebind (py_iter evs) (\<lambda>xs. if xs = [] then Inr ref_data else Inl AttributeError))"

text \<open>The second loop of \<^verbatim>\<open>_change_referring_schemas\<close>: re-point and persist each referrer.\<close>

fun write_referring :: "int \<Rightarrow> string \<Rightarrow> string \<Rightarrow> string \<Rightarrow> json list \<Rightarrow> table \<Rightarrow> error + table" where
  "write_referring now old_id new_id client_id [] tbl = Inr tbl"
| "write_referring now old_id new_id client_id (ref_data # rest) tbl =
     ebind (repoint_schema old_id new_id ref_data) (\<lambda>ref_data'.
     ebind (py_str_item ref_data' ''@id'') (\<lambda>ref_id.
     ebind (write_schema_same_id now ref_id ref_data' client_id tbl)
       (write_referring now old_id new_id client_id rest)))"

text \<open>\<^verbatim>\<open>Transaction._change_referring_schemas\<close>\<close>

definition change_referring_schemas :: "int \<Rightarrow> string \<Rightarrow> string \<Rightarrow> string \<Rightarrow> table \<Rightarrow> error + table" where
  "change_referring_schemas now old_id new_id client_id tbl =
     (if old_id = new_id then Inr tbl
      else
        ebind (loads_all (map data (filter (\<lambda>r. quarantined r = 0) tbl))) (\<lambda>all_schemas.
        ebind (referring_schemas old_id all_schemas) (\<lambda>refs.
        ebind (lock_referring now client_id refs tbl)
          (write_referring now old_id new_id client_id refs))))"

text \<open>\<^verbatim>\<open>Transaction.write_schema\<close>\<close>

definition write_schema :: "int \<Rightarrow> string \<Rightarrow> json \<Rightarrow> string \<Rightarrow> table \<Rightarrow> error + table" where
  "write_schema now schema_id sdf_data client_id tbl =
     ebind (set_lock now True schema_id client_id tbl) (\<lambda>tbl1.
     ebind (py_str_item sdf_data ''@id'') (\<lambda>new_id.
     ebind (change_referring_schemas now schema_id new_id client_id tbl1)
       (update_schema schema_id (Dumps sdf_data) new_id)))"

text \<open>
  \<^verbatim>\<open>do_transaction\<close>: the body runs inside \<^verbatim>\<open>with con:\<close>, which commits when the body
  returns and rolls back when it raises. The result is the outcome and the table afterwards.
\<close>

definition do_transaction :: "(table \<Rightarrow> error + table) \<Rightarrow> table \<Rightarrow> (error + unit) \<times> table" where
  "do_transaction body tbl =
     (case body tbl of Inl e \<Rightarrow> (Inl e, tbl) | Inr tbl' \<Rightarrow> (Inr (), tbl'))"

section \<open>Reading and deleting\<close>

text \<open>
  \<^verbatim>\<open>util.validate_type(sdf.Document, data)\<close>. The module \<^verbatim>\<open>sdf\<close> is generated and not part
  of the sources, so the conformance check of a dict is the parameter \<open>valid\<close>. The check is
  made by \<^verbatim>\<open>model(**data)\<close>, which raises TypeError when \<open>data\<close> is not a dict; only the
  validation error of the model is turned into \<^verbatim>\<open>util.ValidationError\<close>.
\<close>

definition validate_type :: "(json \<Rightarrow> bool) \<Rightarrow> json \<Rightarrow> error + json" where
  "validate_type valid data_dict =
     (case data_dict of
        JObj kvs \<Rightarrow> if valid data_dict then Inr data_dict else Inl ValidationError
      | _ \<Rightarrow> Inl TypeError)"

text \<open>\<^verbatim>\<open>loads_sdf\<close> is \<^verbatim>\<open>json.loads\<close> followed by \<^verbatim>\<open>util.validate_type\<close>.\<close>

definition loads_sdf :: "(json \<Rightarrow> bool) \<Rightarrow> stored_text \<Rightarrow> error + json" where
  "loads_sdf valid t = ebind (json_loads t) (validate_type valid)"



section \<open>Expected states and example data\<close>

definition acquired :: "int \<Rightarrow> string \<Rightarrow> string \<Rightarrow> table \<Rightarrow> table" where
  "acquired now schema_id client_id tbl =
     map (\<lambda>r. if atId r = schema_id then r\<lparr>lock_ts := Some now, holder_id := Some client_id\<rparr> else r) tbl"

definition released :: "string \<Rightarrow> table \<Rightarrow> table" where
  "released schema_id tbl =
     map (\<lambda>r. if atId r = schema_id then r\<lparr>lock_ts := None, holder_id := None\<rparr> else r) tbl"

definition lockable :: "int \<Rightarrow> string \<Rightarrow> row \<Rightarrow> bool" where
  "lockable now client_id r = (\<not> (lock_is_valid now r \<and> holder_id r \<noteq> Some client_id))"

definition doc_a :: json where
  "doc_a = JObj [(''@id'', JStr ''cmu:Schema/a''), (''events'', JArr [])]"

definition row_a :: "int option \<Rightarrow> string option \<Rightarrow> row" where
  "row_a ts h = \<lparr>atId = ''cmu:Schema/a'', lock_ts = ts, holder_id = h, data = Dumps doc_a,
                quarantined = 0, note_col = None\<rparr>"


text \<open>
  The shape that the rename pass relies on: a schema is a dict whose \<^verbatim>\<open>events\<close>, when
  present, is a list of dicts. A table is in order when it has its primary key and every row
  that is not quarantined holds such a schema under its own identifier.
\<close>

definition is_obj :: "json \<Rightarrow> bool" where
  "is_obj j = (case j of JObj kvs \<Rightarrow> True | _ \<Rightarrow> False)"

definition doc_shape :: "json \<Rightarrow> bool" where
  "doc_shape j =
     (case j of
        JObj kvs \<Rightarrow> (case map_of kvs ''events'' of
                      None \<Rightarrow> True
                    | Some (JArr es) \<Rightarrow> list_all is_obj es
                    | Some _ \<Rightarrow> False)
      | _ \<Rightarrow> False)"

definition row_ok :: "row \<Rightarrow> bool" where
  "row_ok r =
     (quarantined r = 0 \<longrightarrow>
        (case data r of
           Dumps j \<Rightarrow> doc_shape j \<and> py_str_item j ''@id'' = Inr (atId r)
         | NotJson s \<Rightarrow> False))"

definition store_ok :: "table \<Rightarrow> bool" where
  "store_ok tbl = (primary_key tbl \<and> list_all row_ok tbl)"

text \<open>The rows that \<^verbatim>\<open>_change_referring_schemas\<close> selects, and what the rename makes of the
  table when it goes through.\<close>

definition referrer :: "string \<Rightarrow> row \<Rightarrow> bool" where
  "referrer old_id r =
     (quarantined r = 0 \<and>
      (case data r of Dumps j \<Rightarrow> refers_to old_id j = Inr True | NotJson s \<Rightarrow> False))"

definition the_doc :: "row \<Rightarrow> json" where
  "the_doc r = (case data r of Dumps j \<Rightarrow> j | NotJson s \<Rightarrow> JNull)"

definition repointed :: "string \<Rightarrow> string \<Rightarrow> json \<Rightarrow> json" where
  "repointed old_id new_id j =
     (case repoint_schema old_id new_id j of Inr j' \<Rightarrow> j' | Inl e \<Rightarrow> j)"

definition renamed :: "int \<Rightarrow> string \<Rightarrow> json \<Rightarrow> string \<Rightarrow> string \<Rightarrow> table \<Rightarrow> table" where
  "renamed now old_id sdf_data new_id client_id tbl =
     map (\<lambda>r. if atId r = old_id
              then r\<lparr>atId := new_id, lock_ts := Some now, holder_id := Some client_id,
                     data := Dumps sdf_data, quarantined := 0\<rparr>
              else if referrer old_id r
              then r\<lparr>lock_ts := Some now, holder_id := Some client_id,
                     data := Dumps (repointed old_id new_id (the_doc r))\<rparr>
              else r) tbl"

definition row_q :: row where
  "row_q = \<lparr>atId = ''cmu:Schema/a'', lock_ts = None, holder_id = None,
             data = NotJson ''{'', quarantined = 1, note_col = Some ''Not valid JSON''\<rparr>"

definition locked :: "int \<Rightarrow> string \<Rightarrow> row \<Rightarrow> row" where
  "locked now client_id r = r\<lparr>lock_ts := Some now, holder_id := Some client_id\<rparr>"

definition rewritten :: "int \<Rightarrow> string \<Rightarrow> string \<Rightarrow> string \<Rightarrow> row \<Rightarrow> row" where
  "rewritten now old_id new_id client_id r =
     r\<lparr>lock_ts := Some now, holder_id := Some client_id,
       data := Dumps (repointed old_id new_id (the_doc r)), quarantined := 0\<rparr>"

definition doc_z :: json where
  "doc_z = JObj [(''@id'', JStr ''cmu:Schema/z''), (''events'', JArr [])]"

definition doc_b :: "string \<Rightarrow> string \<Rightarrow> json" where
  "doc_b node label =
     JObj [(''@id'', JStr ''cmu:Schema/b''),
           (''events'', JArr [JObj [(''@id'', JStr ''cmu:Events/1''), (''wd_node'', JStr node),
                                    (''wd_label'', JStr label)]])]"

definition row_b :: "int option \<Rightarrow> string option \<Rightarrow> json \<Rightarrow> row" where
  "row_b ts h d = \<lparr>atId = ''cmu:Schema/b'', lock_ts = ts, holder_id = h, data = Dumps d,
                  quarantined = 0, note_col = None\<rparr>"

definition row_z :: "int option \<Rightarrow> string option \<Rightarrow> row" where
  "row_z ts h = \<lparr>atId = ''cmu:Schema/z'', lock_ts = ts, holder_id = h, data = Dumps doc_z,
                quarantined = 0, note_col = None\<rparr>"

section \<open>Composition input and digest\<close>

text \<open>
  \<^verbatim>\<open>SELECT data FROM Schema where atId IN (...)\<close>. SQLite answers the query from the index
  of the primary key, one lookup for each distinct value of the list in increasing order, so
  the rows come ordered by \<^verbatim>\<open>atId\<close>.
\<close>

definition select_in :: "string list \<Rightarrow> table \<Rightarrow> row list" where
  "select_in schema_ids tbl = sort_key atId (filter (\<lambda>r. atId r \<in> set schema_ids) tbl)"

text \<open>The loop that opens \<^verbatim>\<open>package_schemas\<close>: a row whose text fails validation is skipped;
  a row whose text is not JSON raises, since only \<^verbatim>\<open>util.ValidationError\<close> is caught.\<close>

fun load_valid :: "(json \<Rightarrow> bool) \<Rightarrow> stored_text list \<Rightarrow> error + json list" where
  "load_valid valid [] = Inr []"
| "load_valid valid (t # ts) =
     (case loads_sdf valid t of
        Inl e \<Rightarrow> if e = ValidationError then load_valid valid ts else Inl e
      | Inr schema \<Rightarrow> ebind (load_valid valid ts) (\<lambda>rest. Inr (schema # rest)))"

definition fetch_schemas :: "(json \<Rightarrow> bool) \<Rightarrow> string list \<Rightarrow> table \<Rightarrow> error + json list" where
  "fetch_schemas valid schema_ids tbl = load_valid valid (map data (select_in schema_ids tbl))"

text \<open>\<^verbatim>\<open>sorted(schemas, key=lambda x: x["@id"])\<close>: a stable sort on the identifier, strings
  compared character by character.\<close>

definition sorted_by_atId :: "json list \<Rightarrow> error + json list" where
  "sorted_by_atId schemas =
     ebind (map_err (\<lambda>s. py_str_item s ''@id'') schemas)
       (\<lambda>keys. Inr (map snd (sort_key fst (zip keys schemas))))"

type_synonym bytes = "8 word list"

definition alphabet :: string where
  "alphabet = ''0123456789ABCDEFGHIJKLMNOPQRSTUVWXYZabcdefghijklmnopqrstuvwxyz''"

text \<open>\<^verbatim>\<open>sum(x * 2 ** (8 * i) for i, x in enumerate(b))\<close>\<close>

definition bytes_to_int :: "bytes \<Rightarrow> nat" where
  "bytes_to_int b = sum_list (map (\<lambda>(i, x). unat x * 2 ^ (8 * i)) (enumerate 0 b))"

text \<open>The \<^verbatim>\<open>while n > 0\<close> loop of \<^verbatim>\<open>digest_to_base62\<close>.\<close>

function base62_loop :: "nat \<Rightarrow> string \<Rightarrow> string" where
  "base62_loop n s =
     (if n > 0
      then base62_loop (n div length alphabet) (s @ [alphabet ! (n mod length alphabet)])
      else s)"
  by pat_completeness auto
termination
  by (relation "measure fst") (auto simp: alphabet_def)

declare base62_loop.simps [simp del]

definition digest_to_base62 :: "bytes \<Rightarrow> string" where
  "digest_to_base62 b = base62_loop (bytes_to_int b) ''''"

text \<open>
  The digest of the input: \<^verbatim>\<open>hasher.update(json.dumps(s).encode())\<close> for each of the sorted
  schemas, then \<^verbatim>\<open>digest_to_base62(hasher.digest())\<close>. The hash \<^verbatim>\<open>blake2b\<close> (8 bytes) and the
  serialisation are parameters; successive \<^verbatim>\<open>hasher.update\<close> calls hash the concatenation.
\<close>

definition input_digest :: "(bytes \<Rightarrow> bytes) \<Rightarrow> (json \<Rightarrow> bytes) \<Rightarrow> json list \<Rightarrow> string" where
  "input_digest blake2b dumps_encode sorted_schemas =
     digest_to_base62 (blake2b (concat (map dumps_encode sorted_schemas)))"

text \<open>Reading a digest back: the value of a string of base-62 digits, least significant
  digit first.\<close>

definition digit_value :: "char \<Rightarrow> nat" where
  "digit_value c = length (takeWhile (\<lambda>a. a \<noteq> c) alphabet)"

fun from_base62 :: "string \<Rightarrow> nat" where
  "from_base62 [] = 0"
| "from_base62 (c # cs) = digit_value c + 62 * from_base62 cs"

definition only_doc_z :: "json \<Rightarrow> bool" where
  "only_doc_z d = (d = doc_z)"

definition row_q_valid :: row where
  "row_q_valid = \<lparr>atId = ''cmu:Schema/a'', lock_ts = None, holder_id = None,
                   data = Dumps doc_a, quarantined = 1, note_col = Some ''Not Valid SDF''\<rparr>"

definition at_id_of :: "json \<Rightarrow> string" where
  "at_id_of s = (case py_str_item s ''@id'' of Inr i \<Rightarrow> i | Inl e \<Rightarrow> [])"

definition has_at_id :: "json \<Rightarrow> bool" where
  "has_at_id s = (case py_str_item s ''@id'' of Inr i \<Rightarrow> True | Inl e \<Rightarrow> False)"

text \<open>Stand-ins for the hash and the serialisation, to run the digest on an example.\<close>

definition toy_hash :: "bytes \<Rightarrow> bytes" where
  "toy_hash bs = take 2 (rev bs)"

definition toy_encode :: "json \<Rightarrow> bytes" where
  "toy_encode j = map (\<lambda>c. of_nat (of_char c)) (at_id_of j)"

definition accept_all :: "json \<Rightarrow> bool" where
  "accept_all d = True"

section \<open>Identifiers (\<^verbatim>\<open>util.py\<close>)\<close>

text \<open>\<^verbatim>\<open>ensure_list\<close>\<close>

definition ensure_list :: "json \<Rightarrow> json list" where
  "ensure_list x = (case x of JArr xs \<Rightarrow> xs | _ \<Rightarrow> [x])"

text \<open>
  \<^verbatim>\<open>collect_ids\<close>: the values under every \<^verbatim>\<open>@id\<close> key, in the order of the traversal.
\<close>

fun collect_ids :: "json \<Rightarrow> json list" where
  "collect_ids (JObj kvs) =
     concat (map (\<lambda>(k, v). (if k = ''@id'' then [v] else []) @ collect_ids v) kvs)"
| "collect_ids (JArr xs) = concat (map collect_ids xs)"
| "collect_ids v = []"

text \<open>
  \<^verbatim>\<open>sub_id\<close>. On a dict or a list it replaces, in place, every value equal to \<open>target\<close> that
  does not sit directly under an \<^verbatim>\<open>@id\<close> key, and descends into every list and dict;
  \<open>sub_id_in\<close> is that effect (the recursive call is only made on lists and dicts, where it
  cannot raise). On anything else \<^verbatim>\<open>sub_id\<close> raises ValueError.
\<close>

fun sub_id_in :: "string \<Rightarrow> string \<Rightarrow> json \<Rightarrow> json" where
  "sub_id_in target replacement (JObj kvs) =
     JObj (map (\<lambda>(k, v). (k, if k \<noteq> ''@id'' \<and> v = JStr target then JStr replacement
                              else sub_id_in target replacement v)) kvs)"
| "sub_id_in target replacement (JArr xs) =
     JArr (map (\<lambda>v. if v = JStr target then JStr replacement
                     else sub_id_in target replacement v) xs)"
| "sub_id_in target replacement v = v"

definition sub_id :: "json \<Rightarrow> string \<Rightarrow> string \<Rightarrow> error + json" where
  "sub_id obj target replacement =
     (case obj of
        JObj kvs \<Rightarrow> Inr (sub_id_in target replacement obj)
      | JArr xs \<Rightarrow> Inr (sub_id_in target replacement obj)
      | _ \<Rightarrow> Inl ValueError)"

text \<open>
  The objects that \<^verbatim>\<open>fix_atIds\<close> changes sit inside the document; a path of dict keys and
  list indices names the place of each, so that a change of the object is a change of the
  document.
\<close>

datatype step = Key string | Idx nat

primrec get_at :: "step list \<Rightarrow> json \<Rightarrow> json option" where
  "get_at [] j = Some j"
| "get_at (s # p) j =
     (case (s, j) of
        (Key k, JObj kvs) \<Rightarrow> (case map_of kvs k of None \<Rightarrow> None | Some v \<Rightarrow> get_at p v)
      | (Idx i, JArr xs) \<Rightarrow> (if i < length xs then get_at p (xs ! i) else None)
      | _ \<Rightarrow> None)"

primrec upd_at :: "step list \<Rightarrow> (json \<Rightarrow> json) \<Rightarrow> json \<Rightarrow> json" where
  "upd_at [] f j = f j"
| "upd_at (s # p) f j =
     (case (s, j) of
        (Key k, JObj kvs) \<Rightarrow> JObj (AList.map_entry k (upd_at p f) kvs)
      | (Idx i, JArr xs) \<Rightarrow> JArr (xs[i := upd_at p f (xs ! i)])
      | _ \<Rightarrow> j)"

text \<open>The places of the elements of \<^verbatim>\<open>ensure_list(v)\<close>, where \<open>v\<close> is the value at \<open>p\<close>.\<close>

definition element_paths :: "step list \<Rightarrow> json \<Rightarrow> step list list" where
  "element_paths p v =
     (case v of JArr xs \<Rightarrow> map (\<lambda>i. p @ [Idx i]) [0..<length xs] | _ \<Rightarrow> [p])"

text \<open>\<^verbatim>\<open>x[k].split(...)\<close> and \<^verbatim>\<open>x[k].replace(...)\<close>: the value has to be a string.\<close>

definition py_str_attr :: "json \<Rightarrow> string \<Rightarrow> error + string" where
  "py_str_attr d k =
     ebind (py_item d k) (\<lambda>v. case v of JStr s \<Rightarrow> Inr s | _ \<Rightarrow> Inl AttributeError)"

text \<open>\<^verbatim>\<open>s.replace(" ", "_")\<close>\<close>

definition replace_spaces :: "string \<Rightarrow> string" where
  "replace_spaces s = map (\<lambda>c. if c = CHR '' '' then CHR ''_'' else c) s"

text \<open>\<^verbatim>\<open>f"{counter:05d}"\<close>: the decimal digits, padded with zeros to five places.\<close>

definition digit_char :: "nat \<Rightarrow> char" where
  "digit_char d = ''0123456789'' ! d"

function decimal :: "nat \<Rightarrow> string" where
  "decimal n = (if n < 10 then [digit_char n] else decimal (n div 10) @ [digit_char (n mod 10)])"
  by pat_completeness auto
termination
  by (relation "measure id") auto

declare decimal.simps [simp del]

definition format_05d :: "nat \<Rightarrow> string" where
  "format_05d n = replicate (5 - length (decimal n)) CHR ''0'' @ decimal n"

definition canonical_atId :: "string \<Rightarrow> nat \<Rightarrow> string \<Rightarrow> string" where
  "canonical_atId ke_type counter name =
     ''cmu:'' @ ke_type @ ''/'' @ format_05d counter @ ''/'' @ name"

text \<open>The name that goes into the identifier, by kind of element.\<close>

definition element_name :: "string \<Rightarrow> json \<Rightarrow> error + string" where
  "element_name ke_type x =
     (if ke_type = ''Participants''
      then ebind (py_str_attr x ''entity'') (\<lambda>s. Inr (last_segment s))
      else if ke_type = ''Relations''
      then ebind (py_str_attr x ''wd_label'') (\<lambda>s. Inr (replace_spaces s))
      else ebind (py_str_attr x ''name'') (\<lambda>s. Inr (replace_spaces s)))"

text \<open>
  One turn of the loop of \<^verbatim>\<open>fix_for_ke_type\<close>, for the element at \<open>p\<close>. The state is the
  document, the counter, and the number of identifiers drawn from \<^verbatim>\<open>uuid.uuid4()\<close>; the
  random identifiers are the parameter \<open>uuid4\<close>, the \<open>n\<close>-th draw being \<open>uuid4 n\<close>.
\<close>

definition fix_instance :: "(nat \<Rightarrow> string) \<Rightarrow> bool \<Rightarrow> string \<Rightarrow> step list \<Rightarrow>
    json \<times> nat \<times> nat \<Rightarrow> error + json \<times> nat \<times> nat" where
  "fix_instance uuid4 use_uuids ke_type p st =
     (case st of (lib, counter, drawn) \<Rightarrow>
        (case get_at p lib of
           None \<Rightarrow> Inl IndexError
         | Some x \<Rightarrow>
             ebind (element_name ke_type x) (\<lambda>name.
             ebind (py_str_item x ''@id'') (\<lambda>old_atId.
               let new_atId = (if use_uuids then uuid4 drawn
                               else canonical_atId ke_type counter name);
                   lib1 = upd_at p (\<lambda>x. py_set_item x ''@id'' (JStr new_atId)) lib
               in ebind (sub_id lib1 old_atId new_atId) (\<lambda>lib2.
                    Inr (lib2, counter + 1, if use_uuids then drawn + 1 else drawn))))))"

fun fold_err :: "('a \<Rightarrow> 's \<Rightarrow> error + 's) \<Rightarrow> 'a list \<Rightarrow> 's \<Rightarrow> error + 's" where
  "fold_err f [] st = Inr st"
| "fold_err f (x # xs) st = ebind (f x st) (fold_err f xs)"

text \<open>\<^verbatim>\<open>fix_for_ke_type\<close> on the elements of \<^verbatim>\<open>ensure_list(v)\<close>, \<open>v\<close> being the value under \<open>key\<close>.\<close>

definition fix_for_ke_type :: "(nat \<Rightarrow> string) \<Rightarrow> bool \<Rightarrow> string \<Rightarrow> string \<Rightarrow> json \<Rightarrow>
    json \<times> nat \<times> nat \<Rightarrow> error + json \<times> nat \<times> nat" where
  "fix_for_ke_type uuid4 use_uuids ke_type key v st =
     fold_err (fix_instance uuid4 use_uuids ke_type) (element_paths [Key key] v) st"

text \<open>
  The places of the participants: for each event with a \<^verbatim>\<open>participants\<close> key, the elements of
  that value. Every event is a dict here, the pass over the events having raised otherwise.
  A value that is not a list either cannot be iterated or hands strings to \<^verbatim>\<open>x["entity"]\<close>.
\<close>

definition participants_of :: "step list \<Rightarrow> json \<Rightarrow> error + step list list" where
  "participants_of p event =
     (case event of
        JObj kvs \<Rightarrow>
          (case map_of kvs ''participants'' of
             None \<Rightarrow> Inr []
           | Some (JArr ps) \<Rightarrow> Inr (map (\<lambda>i. p @ [Key ''participants'', Idx i]) [0..<length ps])
           | Some (JObj []) \<Rightarrow> Inr []
           | Some (JStr []) \<Rightarrow> Inr []
           | Some _ \<Rightarrow> Inl TypeError)
      | _ \<Rightarrow> Inl TypeError)"

definition participant_paths :: "json \<Rightarrow> error + step list list" where
  "participant_paths lib =
     ebind (py_item lib ''events'') (\<lambda>evs.
     ebind (map_err (\<lambda>p. case get_at p lib of None \<Rightarrow> Inl IndexError
                                | Some event \<Rightarrow> participants_of p event)
              (element_paths [Key ''events''] evs))
       (\<lambda>pss. Inr (concat pss)))"

text \<open>\<^verbatim>\<open>fix_atIds\<close>; it returns the document and the number of draws.\<close>

definition fix_atIds :: "(nat \<Rightarrow> string) \<Rightarrow> bool \<Rightarrow> json \<Rightarrow> nat \<Rightarrow> error + json \<times> nat" where
  "fix_atIds uuid4 use_uuids lib drawn =
     ebind (py_item lib ''entities'') (\<lambda>entities.
     ebind (fix_for_ke_type uuid4 use_uuids ''Entities'' ''entities'' entities (lib, 0, drawn)) (\<lambda>st1.
     ebind (py_item (fst st1) ''events'') (\<lambda>events.
     ebind (fix_for_ke_type uuid4 use_uuids ''Events'' ''events'' events st1) (\<lambda>st2.
     ebind (py_get (fst st2) ''relations'' (JArr [])) (\<lambda>relations.
     ebind (fix_for_ke_type uuid4 use_uuids ''Relations'' ''relations'' relations st2) (\<lambda>st3.
     ebind (py_get (fst st3) ''instances'' (JArr [])) (\<lambda>instances.
     ebind (fix_for_ke_type uuid4 use_uuids ''Instances'' ''instances'' instances st3) (\<lambda>st4.
     ebind (participant_paths (fst st4)) (\<lambda>participants.
     ebind (fold_err (fix_instance uuid4 use_uuids ''Participants'') participants st4) (\<lambda>st5.
     Inr (fst st5, snd (snd st5))))))))))))"

text \<open>
  For the properties of the pass: the strings of a document that do not sit directly under
  an \<^verbatim>\<open>@id\<close> key, in the order of the traversal (\<open>under_id\<close> tells whether the value itself
  sits under such a key). These are the places where a reference can occur.
\<close>

fun leaves :: "bool \<Rightarrow> json \<Rightarrow> string list" where
  "leaves under_id (JStr s) = (if under_id then [] else [s])"
| "leaves under_id (JObj kvs) = concat (map (\<lambda>(k, v). leaves (k = ''@id'') v) kvs)"
| "leaves under_id (JArr xs) = concat (map (leaves False) xs)"
| "leaves under_id v = []"

definition references :: "json \<Rightarrow> string list" where
  "references lib = leaves True lib"

text \<open>A string is an identifier of the document when \<^verbatim>\<open>collect_ids\<close> finds it.\<close>

definition is_atId :: "json \<Rightarrow> string \<Rightarrow> bool" where
  "is_atId lib s = (JStr s \<in> set (collect_ids lib))"

definition set_atId :: "string \<Rightarrow> json \<Rightarrow> json" where
  "set_atId new_atId x = py_set_item x ''@id'' (JStr new_atId)"

text \<open>
  References that resolve keep resolving: the non-\<^verbatim>\<open>@id\<close> strings of the two documents
  correspond one to one, and wherever the first is an identifier of the first document, the
  second is an identifier of the second.
\<close>

definition resolved_preserved :: "json \<Rightarrow> json \<Rightarrow> bool" where
  "resolved_preserved lib lib' =
     list_all2 (\<lambda>s s'. is_atId lib s \<longrightarrow> is_atId lib' s') (references lib) (references lib')"

text \<open>Reading the counter back from a canonical identifier.\<close>

definition decimal_digit_value :: "char \<Rightarrow> nat" where
  "decimal_digit_value c = length (takeWhile (\<lambda>d. d \<noteq> c) ''0123456789'')"

definition dec_value :: "string \<Rightarrow> nat" where
  "dec_value s = foldl (\<lambda>a c. 10 * a + decimal_digit_value c) 0 s"

definition counter_of :: "string \<Rightarrow> nat" where
  "counter_of s =
     dec_value (takeWhile (\<lambda>c. c \<noteq> CHR ''/'') (tl (dropWhile (\<lambda>c. c \<noteq> CHR ''/'') (drop 4 s))))"

definition ke_types :: "string set" where
  "ke_types = {''Entities'', ''Events'', ''Relations'', ''Instances'', ''Participants''}"

text \<open>The shape of a document: the document with every string emptied. The places of the
  elements depend on the shape only, and the pass does not change it.\<close>

fun shape :: "json \<Rightarrow> json" where
  "shape (JStr s) = JStr []"
| "shape (JArr xs) = JArr (map shape xs)"
| "shape (JObj kvs) = JObj (map (\<lambda>(k, v). (k, shape v)) kvs)"
| "shape v = v"

text \<open>
  The places of the elements that the pass renumbers, read off a document: the elements under
  \<^verbatim>\<open>entities\<close>, \<^verbatim>\<open>events\<close>, \<^verbatim>\<open>relations\<close> and \<^verbatim>\<open>instances\<close>, then the participants listed by
  the events.
\<close>

definition places_under :: "string \<Rightarrow> json \<Rightarrow> step list list" where
  "places_under k lib =
     (case lib of
        JObj kvs \<Rightarrow> (case map_of kvs k of None \<Rightarrow> [] | Some v \<Rightarrow> element_paths [Key k] v)
      | _ \<Rightarrow> [])"

definition listed_participants :: "step list \<Rightarrow> json \<Rightarrow> step list list" where
  "listed_participants p event =
     (case event of
        JObj kvs \<Rightarrow>
          (case map_of kvs ''participants'' of
             Some (JArr ps) \<Rightarrow> map (\<lambda>i. p @ [Key ''participants'', Idx i]) [0..<length ps]
           | _ \<Rightarrow> [])
      | _ \<Rightarrow> [])"

definition participant_places :: "json \<Rightarrow> step list list" where
  "participant_places lib =
     concat (map (\<lambda>p. case get_at p lib of None \<Rightarrow> [] | Some event \<Rightarrow> listed_participants p event)
               (places_under ''events'' lib))"

definition renumbered_places :: "json \<Rightarrow> step list list" where
  "renumbered_places lib =
     places_under ''entities'' lib @ places_under ''events'' lib @ places_under ''relations'' lib
       @ places_under ''instances'' lib @ participant_places lib"

text \<open>The places \<open>ps\<close> hold the canonical identifiers numbered from 0, of the kinds \<open>kes\<close>.\<close>

definition assigned :: "json \<Rightarrow> step list list \<Rightarrow> string list \<Rightarrow> bool" where
  "assigned lib ps kes =
     (length kes = length ps \<and>
      (\<forall>k < length ps. \<exists>name.
         get_at (ps ! k @ [Key ''@id'']) lib = Some (JStr (canonical_atId (kes ! k) k name))))"

text \<open>Example documents for the identifier pass.\<close>

definition no_uuid :: "nat \<Rightarrow> string" where
  "no_uuid n = []"

definition lib_collision :: "string \<Rightarrow> string \<Rightarrow> string \<Rightarrow> string \<Rightarrow> json" where
  "lib_collision entity_id event_id participant_id entity_ref =
     JObj [(''@id'', JStr ''cmu:Entities/00000/a''),
           (''entities'', JArr [JObj [(''@id'', JStr entity_id), (''name'', JStr ''a'')]]),
           (''events'',
            JArr [JObj [(''@id'', JStr event_id), (''name'', JStr ''go now''),
                        (''participants'',
                         JArr [JObj [(''@id'', JStr participant_id),
                                     (''entity'', JStr entity_ref),
                                     (''roleName'', JStr ''A0'')]])]])]"

definition lib_dangling :: "string \<Rightarrow> string \<Rightarrow> json" where
  "lib_dangling event_id participant_id =
     JObj [(''@id'', JStr ''cmu:Schema/d''),
           (''entities'', JArr []),
           (''events'',
            JArr [JObj [(''@id'', JStr event_id), (''name'', JStr ''go''),
                        (''participants'',
                         JArr [JObj [(''@id'', JStr participant_id),
                                     (''entity'', JStr ''cmu:nowhere'')]])]])]"

section \<open>Subschema inlining (\<^verbatim>\<open>inject_subschemas\<close>)\<close>

text \<open>The truth value that Python gives a JSON value.\<close>

definition truthy :: "json \<Rightarrow> bool" where
  "truthy v =
     (case v of
        JNull \<Rightarrow> False | JBool b \<Rightarrow> b | JNum n \<Rightarrow> n \<noteq> 0 | JStr s \<Rightarrow> s \<noteq> []
      | JArr xs \<Rightarrow> xs \<noteq> [] | JObj kvs \<Rightarrow> kvs \<noteq> [])"

text \<open>\<^verbatim>\<open>e.get("privateData", {}).get("isSchemaArg", False)\<close>\<close>

definition is_schema_arg :: "json \<Rightarrow> error + bool" where
  "is_schema_arg e =
     ebind (py_get e ''privateData'' (JObj [])) (\<lambda>pd.
     ebind (py_get pd ''isSchemaArg'' (JBool False)) (\<lambda>v. Inr (truthy v)))"

text \<open>The dict \<^verbatim>\<open>args\<close>, built entity by entity: a name seen again takes the later entity.\<close>

fun schema_args :: "(string \<times> json) list \<Rightarrow> json list \<Rightarrow> error + (string \<times> json) list" where
  "schema_args args [] = Inr args"
| "schema_args args (e # es) =
     ebind (is_schema_arg e) (\<lambda>b.
       if b then ebind (py_str_item e ''name'') (\<lambda>name. schema_args (AList.update name e args) es)
       else schema_args args es)"

text \<open>\<^verbatim>\<open>args[k]\<close>\<close>

definition args_item :: "(string \<times> json) list \<Rightarrow> string \<Rightarrow> error + json" where
  "args_item args k = (case map_of args k of None \<Rightarrow> Inl KeyError | Some a \<Rightarrow> Inr a)"

text \<open>
  The loop over the participants of the outer event: each binds the formal argument of its
  role to its entity and takes the argument out of \<^verbatim>\<open>unused_args\<close>
  (\<^verbatim>\<open>set.remove\<close> raises KeyError on an element that is not there).
\<close>

fun bind_args :: "(string \<times> json) list \<Rightarrow> json list \<Rightarrow> json \<times> string set \<Rightarrow>
    error + json \<times> string set" where
  "bind_args args [] st = Inr st"
| "bind_args args (p # ps) st =
     (case st of (subschema, unused_args) \<Rightarrow>
        ebind (py_str_item p ''roleName'') (\<lambda>role.
        ebind (args_item args role) (\<lambda>a.
        ebind (py_str_item a ''@id'') (\<lambda>arg_id.
        ebind (py_str_item p ''entity'') (\<lambda>entity.
        ebind (sub_id subschema arg_id entity) (\<lambda>subschema'.
          if arg_id \<in> unused_args
          then bind_args args ps (subschema', unused_args - {arg_id})
          else Inl KeyError))))))"

text \<open>\<^verbatim>\<open>ps[j]["entity"] in unused_args\<close>: a list or a dict cannot be looked up in a set.\<close>

definition in_unused :: "string set \<Rightarrow> json \<Rightarrow> error + bool" where
  "in_unused unused_args p =
     ebind (py_item p ''entity'') (\<lambda>v.
       case v of
         JStr s \<Rightarrow> Inr (s \<in> unused_args)
       | JArr xs \<Rightarrow> Inl TypeError
       | JObj kvs \<Rightarrow> Inl TypeError
       | _ \<Rightarrow> Inr False)"

text \<open>\<^verbatim>\<open>del ps[j]\<close>\<close>

definition del_at :: "nat \<Rightarrow> 'a list \<Rightarrow> 'a list" where
  "del_at j ps = take j ps @ drop (Suc j) ps"

text \<open>
  The loop \<^verbatim>\<open>while j < len(ps)\<close> that prunes one participant list. A participant that is kept
  advances \<open>j\<close> by \<open>i\<close>, the index of the outer event in the library, as the source does.
  The value is None when the loop does not return.
\<close>

partial_function (option) prune_loop ::
    "nat \<Rightarrow> string set \<Rightarrow> json list \<Rightarrow> nat \<Rightarrow> (error + json list) option" where
  "prune_loop i unused_args ps j =
     (if j < length ps
      then (case in_unused unused_args (ps ! j) of
              Inl e \<Rightarrow> Some (Inl e)
            | Inr b \<Rightarrow> if b then prune_loop i unused_args (del_at j ps) j
                       else prune_loop i unused_args ps (j + i))
      else Some (Inr ps))"

declare prune_loop.simps [code]

text \<open>The body of \<^verbatim>\<open>for e in ensure_list(subschema["events"])\<close>.\<close>

definition prune_event :: "nat \<Rightarrow> string set \<Rightarrow> json \<Rightarrow> (error + json) option" where
  "prune_event i unused_args e =
     (case py_item e ''participants'' of
        Inl err \<Rightarrow> Some (Inl err)
      | Inr v \<Rightarrow>
          (case prune_loop i unused_args (ensure_list v) 0 of
             None \<Rightarrow> None
           | Some (Inl err) \<Rightarrow> Some (Inl err)
           | Some (Inr ps) \<Rightarrow> Some (Inr (py_set_item e ''participants'' (JArr ps)))))"

fun prune_events :: "nat \<Rightarrow> string set \<Rightarrow> json list \<Rightarrow> (error + json list) option" where
  "prune_events i unused_args [] = Some (Inr [])"
| "prune_events i unused_args (e # es) =
     (case prune_event i unused_args e of
        None \<Rightarrow> None
      | Some (Inl err) \<Rightarrow> Some (Inl err)
      | Some (Inr e') \<Rightarrow>
          (case prune_events i unused_args es of
             None \<Rightarrow> None
           | Some (Inl err) \<Rightarrow> Some (Inl err)
           | Some (Inr es') \<Rightarrow> Some (Inr (e' # es'))))"

text \<open>The pruning of a whole subschema: its events, a list or a single event, are changed in
  place.\<close>

definition prune_subschema :: "nat \<Rightarrow> string set \<Rightarrow> json \<Rightarrow> (error + json) option" where
  "prune_subschema i unused_args subschema =
     (case py_item subschema ''events'' of
        Inl err \<Rightarrow> Some (Inl err)
      | Inr evs \<Rightarrow>
          (case prune_events i unused_args (ensure_list evs) of
             None \<Rightarrow> None
           | Some (Inl err) \<Rightarrow> Some (Inl err)
           | Some (Inr es') \<Rightarrow>
               Some (Inr (py_set_item subschema ''events''
                            (case evs of JArr xs \<Rightarrow> JArr es'
                             | _ \<Rightarrow> (case es' of [e'] \<Rightarrow> e' | _ \<Rightarrow> evs))))))"

text \<open>
  \<^verbatim>\<open>_tag_objects\<close>, one object: \<^verbatim>\<open>private_data["originalDocumentId"] = s\<close> needs a dict.
\<close>

definition tag_object :: "json \<Rightarrow> json \<Rightarrow> error + json" where
  "tag_object s obj =
     ebind (py_get obj ''privateData'' (JObj [])) (\<lambda>private_data.
       case private_data of
         JObj kvs \<Rightarrow> Inr (py_set_item obj ''privateData''
                            (py_set_item private_data ''originalDocumentId'' s))
       | _ \<Rightarrow> Inl TypeError)"

definition tag_objects :: "json \<Rightarrow> json list \<Rightarrow> error + json list" where
  "tag_objects s objs = map_err (tag_object s) objs"

text \<open>
  \<^verbatim>\<open>library[key] += objs\<close>: the value under the key is read first, then the right-hand side
  is evaluated (\<open>rhs\<close>, which may raise), and only a list can be extended by a list.
\<close>

definition extend_list :: "json \<Rightarrow> string \<Rightarrow> (error + json list) \<Rightarrow> error + json" where
  "extend_list library key rhs =
     ebind (py_item library key) (\<lambda>v.
     ebind rhs (\<lambda>objs.
       case v of JArr xs \<Rightarrow> Inr (py_set_item library key (JArr (xs @ objs)))
       | _ \<Rightarrow> Inl TypeError))"

text \<open>The entities that \<^verbatim>\<open>_add_to_library\<close> keeps.\<close>

fun kept_entities :: "bool \<Rightarrow> json list \<Rightarrow> error + json list" where
  "kept_entities remove_args [] = Inr []"
| "kept_entities remove_args (e # es) =
     ebind (if remove_args then is_schema_arg e else Inr False) (\<lambda>b.
     ebind (kept_entities remove_args es) (\<lambda>rest. Inr (if b then rest else e # rest)))"

text \<open>\<^verbatim>\<open>e.get("privateData", {})["isSchemaArg"] = False\<close>: without a \<^verbatim>\<open>privateData\<close> the
  assignment goes to a dict that is thrown away.\<close>

definition clear_schema_arg :: "json \<Rightarrow> error + json" where
  "clear_schema_arg e =
     (case e of
        JObj kvs \<Rightarrow>
          (case map_of kvs ''privateData'' of
             None \<Rightarrow> Inr e
           | Some (JObj pd) \<Rightarrow>
               Inr (py_set_item e ''privateData''
                      (py_set_item (JObj pd) ''isSchemaArg'' (JBool False)))
           | Some _ \<Rightarrow> Inl TypeError)
      | _ \<Rightarrow> Inl AttributeError)"

text \<open>
  \<^verbatim>\<open>_add_to_library\<close>. The objects appended to the library are the objects of the schema; the
  tags written on them are not read again by the callers, so the model returns the library
  only.
\<close>

definition add_to_library :: "json \<Rightarrow> json \<Rightarrow> bool \<Rightarrow> error + json" where
  "add_to_library library schema remove_args =
     ebind (py_item schema ''@id'') (\<lambda>tag.
     ebind (extend_list library ''events''
              (ebind (py_item schema ''events'') (\<lambda>evs. tag_objects tag (ensure_list evs))))
       (\<lambda>library1.
     ebind (py_item schema ''entities'') (\<lambda>ents.
     ebind (kept_entities remove_args (ensure_list ents)) (\<lambda>entities.
     ebind (map_err clear_schema_arg entities) (\<lambda>entities'.
     ebind (extend_list library1 ''entities'' (tag_objects tag entities')) (\<lambda>library2.
     ebind (extend_list library2 ''relations''
              (ebind (py_get schema ''relations'' (JArr []))
                 (\<lambda>rels. tag_objects tag (ensure_list rels))))
       (\<lambda>library3.
     extend_list library3 ''provenanceData''
       (ebind (py_get schema ''provenanceData'' (JArr []))
          (\<lambda>prov. tag_objects tag (ensure_list prov))))))))))"

text \<open>A list or a dict cannot be an element of a Python set.\<close>

definition hashable :: "json \<Rightarrow> bool" where
  "hashable v = (case v of JArr xs \<Rightarrow> False | JObj kvs \<Rightarrow> False | _ \<Rightarrow> True)"

text \<open>The children named by one event: \<^verbatim>\<open>c["child"] for c in ensure_list(e.get("children", []))\<close>.\<close>

definition children_of :: "json \<Rightarrow> error + json list" where
  "children_of e =
     ebind (py_get e ''children'' (JArr [])) (\<lambda>cs.
     map_err (\<lambda>c. ebind (py_item c ''child'')
                     (\<lambda>v. if hashable v then Inr v else Inl TypeError))
       (ensure_list cs))"

text \<open>
  The roots of the subschema, \<^verbatim>\<open>all_roots = all_events - all_children\<close>, as a list without
  repetition. The identifiers of the events are strings, \<^verbatim>\<open>fix_atIds\<close> having set them.
\<close>

definition all_roots :: "json \<Rightarrow> error + string list" where
  "all_roots subschema =
     ebind (py_item subschema ''events'') (\<lambda>evs.
     ebind (map_err (\<lambda>e. py_str_item e ''@id'') (ensure_list evs)) (\<lambda>all_events.
     ebind (map_err children_of (ensure_list evs)) (\<lambda>childrens.
     Inr (remdups (filter (\<lambda>x. JStr x \<notin> set (concat childrens)) all_events)))))"

text \<open>More than one root raises ValueError; \<^verbatim>\<open>list(all_roots)[0]\<close> raises IndexError when
  there is none.\<close>

definition subschema_root :: "json \<Rightarrow> error + string" where
  "subschema_root subschema =
     ebind (all_roots subschema) (\<lambda>roots.
       if length roots > 1 then Inl ValueError
       else (case roots of [] \<Rightarrow> Inl IndexError | r # _ \<Rightarrow> Inr r))"

text \<open>\<^verbatim>\<open>event.get("wd_node", "")[:4] == "cmu:"\<close>: a string is sliced and compared, the slice
  of a list is never equal to a string, and nothing else can be sliced (the exception for a
  dict is TypeError up to Python 3.11 and KeyError from 3.12 on; the model has the former).\<close>

definition is_placeholder :: "json \<Rightarrow> error + bool" where
  "is_placeholder event =
     ebind (py_get event ''wd_node'' (JStr [])) (\<lambda>v.
       case v of
         JStr s \<Rightarrow> Inr (take 4 s = ''cmu:'')
       | JArr xs \<Rightarrow> Inr False
       | _ \<Rightarrow> Inl TypeError)"

text \<open>
  The fetch: the row of the referenced schema, validated. None means that the event is passed
  over (\<^verbatim>\<open>i += 1; continue\<close>): there is no row, or its text fails validation. The
  \<^verbatim>\<open>wd_node\<close> is a string here, the test for a placeholder having passed.
\<close>

definition fetch_subschema :: "(json \<Rightarrow> bool) \<Rightarrow> table \<Rightarrow> json \<Rightarrow> error + json option" where
  "fetch_subschema valid tbl event =
     ebind (py_str_item event ''wd_node'') (\<lambda>schema_id.
       case select_atId schema_id tbl of
         [] \<Rightarrow> Inr None
       | r # _ \<Rightarrow>
           (case loads_sdf valid (data r) of
              Inl e \<Rightarrow> if e = ValidationError then Inr None else Inl e
            | Inr subschema \<Rightarrow> Inr (Some subschema)))"

text \<open>From the fetched subschema to the pruning: fresh identifiers, the formal arguments,
  and their binding by the participants of the outer event.\<close>

definition prepare_subschema :: "(nat \<Rightarrow> string) \<Rightarrow> json \<Rightarrow> json \<Rightarrow> nat \<Rightarrow>
    error + (json \<times> string set) \<times> nat" where
  "prepare_subschema uuid4 event subschema drawn =
     ebind (fix_atIds uuid4 True subschema drawn) (\<lambda>(subschema1, drawn').
     ebind (py_item subschema1 ''entities'') (\<lambda>ents.
     ebind (schema_args [] (ensure_list ents)) (\<lambda>args.
     ebind (map_err (\<lambda>a. py_str_item a ''@id'') (map snd args)) (\<lambda>arg_ids.
     ebind (py_item event ''participants'') (\<lambda>ps.
     ebind (bind_args args (ensure_list ps) (subschema1, set arg_ids)) (\<lambda>bound.
     Inr (bound, drawn')))))))"

text \<open>
  After the pruning: the subschema enters the library, from which the outer event has been
  deleted (\<open>lib_del\<close>), and the identifier of the outer event is replaced by the root of the
  subschema, first in the list of events and then in the whole library.
\<close>

definition finish_inlining :: "json \<Rightarrow> json \<Rightarrow> json \<Rightarrow> error + json" where
  "finish_inlining lib_del event subschema =
     ebind (add_to_library lib_del subschema True) (\<lambda>lib1.
     ebind (subschema_root subschema) (\<lambda>subschema_root_id.
     ebind (py_str_item event ''@id'') (\<lambda>event_id.
     ebind (py_item lib1 ''events'') (\<lambda>events1.
     ebind (sub_id events1 event_id subschema_root_id) (\<lambda>events2.
     sub_id (py_set_item lib1 ''events'' events2) event_id subschema_root_id)))))"

text \<open>
  One turn of the loop of \<^verbatim>\<open>inject_subschemas\<close>, and the loop. The state is the library, the
  index \<open>i\<close> and the number of random identifiers drawn. When \<^verbatim>\<open>lib["events"]\<close> is a list,
  \<open>events\<close> is that list, and \<^verbatim>\<open>del events[i]\<close> changes the library. When it is not,
  \<open>events\<close> is a list of its own with one element, the library keeps its value, and
  \<^verbatim>\<open>_add_to_library\<close> raises at \<^verbatim>\<open>library["events"] += ...\<close>, so that nothing after it runs.
  None: the turn does not return.
\<close>

datatype iteration = Return "json \<times> nat" | Again json nat nat

definition inject_iteration ::
    "(nat \<Rightarrow> string) \<Rightarrow> (json \<Rightarrow> bool) \<Rightarrow> table \<Rightarrow> json \<Rightarrow> nat \<Rightarrow> nat \<Rightarrow>
       (error + iteration) option" where
  "inject_iteration uuid4 valid tbl lib i drawn =
     (case py_item lib ''events'' of
        Inl e \<Rightarrow> Some (Inl e)
      | Inr evs \<Rightarrow>
          if i < length (ensure_list evs)
          then (let events = ensure_list evs;
                    event = events ! i;
                    lib_del = (case evs of
                                 JArr xs \<Rightarrow> py_set_item lib ''events'' (JArr (del_at i events))
                               | _ \<Rightarrow> lib)
                in case is_placeholder event of
                     Inl e \<Rightarrow> Some (Inl e)
                   | Inr False \<Rightarrow> Some (Inr (Again lib (i + 1) drawn))
                   | Inr True \<Rightarrow>
                       (case fetch_subschema valid tbl event of
                          Inl e \<Rightarrow> Some (Inl e)
                        | Inr None \<Rightarrow> Some (Inr (Again lib (i + 1) drawn))
                        | Inr (Some subschema) \<Rightarrow>
                            (case prepare_subschema uuid4 event subschema drawn of
                               Inl e \<Rightarrow> Some (Inl e)
                             | Inr ((subschema1, unused_args), drawn') \<Rightarrow>
                                 (case prune_subschema i unused_args subschema1 of
                                    None \<Rightarrow> None
                                  | Some (Inl e) \<Rightarrow> Some (Inl e)
                                  | Some (Inr subschema2) \<Rightarrow>
                                      (case finish_inlining lib_del event subschema2 of
                                         Inl e \<Rightarrow> Some (Inl e)
                                       | Inr lib' \<Rightarrow> Some (Inr (Again lib' i drawn')))))))
          else Some (Inr (Return (lib, drawn))))"

partial_function (option) inject_loop ::
    "(nat \<Rightarrow> string) \<Rightarrow> (json \<Rightarrow> bool) \<Rightarrow> table \<Rightarrow> json \<Rightarrow> nat \<Rightarrow> nat \<Rightarrow>
       (error + json \<times> nat) option" where
  "inject_loop uuid4 valid tbl lib i drawn =
     (case inject_iteration uuid4 valid tbl lib i drawn of
        None \<Rightarrow> None
      | Some (Inl e) \<Rightarrow> Some (Inl e)
      | Some (Inr (Return r)) \<Rightarrow> Some (Inr r)
      | Some (Inr (Again lib' i' drawn')) \<Rightarrow> inject_loop uuid4 valid tbl lib' i' drawn')"

declare inject_loop.simps [code]

definition inject_subschemas ::
    "(nat \<Rightarrow> string) \<Rightarrow> (json \<Rightarrow> bool) \<Rightarrow> table \<Rightarrow> json \<Rightarrow> nat \<Rightarrow> (error + json \<times> nat) option" where
  "inject_subschemas uuid4 valid tbl lib drawn = inject_loop uuid4 valid tbl lib 0 drawn"

section \<open>Composition (\<^verbatim>\<open>package_schemas\<close>)\<close>

text \<open>\<^verbatim>\<open>{e.get("wd_node", None) for s in schemas for e in ensure_list(s["events"])}\<close>\<close>

definition event_types_of :: "json \<Rightarrow> error + json list" where
  "event_types_of s =
     ebind (py_item s ''events'') (\<lambda>evs.
     map_err (\<lambda>e. ebind (py_get e ''wd_node'' JNull)
                     (\<lambda>v. if hashable v then Inr v else Inl TypeError))
       (ensure_list evs))"

definition all_event_types :: "json list \<Rightarrow> error + json list" where
  "all_event_types schemas = ebind (map_err event_types_of schemas) (\<lambda>tss. Inr (concat tss))"

text \<open>\<^verbatim>\<open>create_blank_schema\<close>; \<open>ctx\<close> and \<open>version\<close> are read from the configuration.\<close>

definition create_blank_schema :: "json \<Rightarrow> json \<Rightarrow> string \<Rightarrow> json" where
  "create_blank_schema ctx version name =
     JObj [(''@context'', ctx),
           (''sdfVersion'', version),
           (''@id'', JStr (''cmu:Schema/'' @ name)),
           (''version'', JStr ''cmu-v0''),
           (''events'', JArr []),
           (''relations'', JArr []),
           (''entities'', JArr []),
           (''privateData'', JObj [(''eratosthenes'', JObj [])]),
           (''provenanceData'', JArr [])]"

text \<open>
  The loop \<^verbatim>\<open>for schema in schemas\<close>: a schema that some event names as its \<^verbatim>\<open>wd_node\<close> is
  left out, every other schema gets fresh identifiers and is added to the library.
\<close>

fun add_schemas :: "(nat \<Rightarrow> string) \<Rightarrow> json list \<Rightarrow> json list \<Rightarrow> json \<times> nat \<Rightarrow> error + json \<times> nat" where
  "add_schemas uuid4 types [] st = Inr st"
| "add_schemas uuid4 types (schema # schemas) st =
     (case st of (library, drawn) \<Rightarrow>
        ebind (py_str_item schema ''@id'') (\<lambda>schema_id.
          if JStr schema_id \<in> set types then add_schemas uuid4 types schemas st
          else ebind (fix_atIds uuid4 True schema drawn) (\<lambda>(schema', drawn').
               ebind (add_to_library library schema' False) (\<lambda>library'.
               add_schemas uuid4 types schemas (library', drawn')))))"

text \<open>\<^verbatim>\<open>package_schemas\<close> from its first line to the call of \<^verbatim>\<open>inject_subschemas\<close>.\<close>

definition build_library :: "(nat \<Rightarrow> string) \<Rightarrow> (bytes \<Rightarrow> bytes) \<Rightarrow> (json \<Rightarrow> bytes) \<Rightarrow>
    (json \<Rightarrow> bool) \<Rightarrow> json \<Rightarrow> json \<Rightarrow> string \<Rightarrow> string list \<Rightarrow> table \<Rightarrow> error + json \<times> nat" where
  "build_library uuid4 blake2b dumps_encode valid ctx version name schema_ids tbl =
     ebind (fetch_schemas valid schema_ids tbl) (\<lambda>schemas.
     ebind (all_event_types schemas) (\<lambda>types.
     ebind (sorted_by_atId schemas) (\<lambda>sorted_schemas.
       let digest = input_digest blake2b dumps_encode sorted_schemas;
           library = py_set_item (create_blank_schema ctx version (name @ ''-'' @ digest))
                       ''privateData'' (JObj [(''inputDigest'', JStr digest)])
       in ebind (add_schemas uuid4 types sorted_schemas (library, 0)) (\<lambda>(library1, drawn).
          ebind (py_item library1 ''privateData'') (\<lambda>private_data.
          Inr (py_set_item library1 ''privateData''
                 (py_set_item private_data ''constitutentSchemas''
                    (JArr (map JStr schema_ids))),
               drawn))))))"

text \<open>
  \<^verbatim>\<open>package_schemas\<close> up to the return of \<^verbatim>\<open>inject_subschemas\<close>; the passes that follow run
  only when this one returns.
\<close>

definition package_schemas :: "(nat \<Rightarrow> string) \<Rightarrow> (bytes \<Rightarrow> bytes) \<Rightarrow> (json \<Rightarrow> bytes) \<Rightarrow>
    (json \<Rightarrow> bool) \<Rightarrow> json \<Rightarrow> json \<Rightarrow> string \<Rightarrow> string list \<Rightarrow> table \<Rightarrow>
    (error + json \<times> nat) option" where
  "package_schemas uuid4 blake2b dumps_encode valid ctx version name schema_ids tbl =
     (case build_library uuid4 blake2b dumps_encode valid ctx version name schema_ids tbl of
        Inl e \<Rightarrow> Some (Inl e)
      | Inr (library, drawn) \<Rightarrow> inject_subschemas uuid4 valid tbl library drawn)"

text \<open>Example data for the composition: random identifiers drawn in sequence, an outer
  schema with a placeholder event, and the subschema that the placeholder names.\<close>

definition seq_uuid :: "nat \<Rightarrow> string" where
  "seq_uuid n = ''uuid-'' @ decimal n"

definition participant :: "string \<Rightarrow> string \<Rightarrow> string \<Rightarrow> json" where
  "participant p_id entity role =
     JObj [(''@id'', JStr p_id), (''entity'', JStr entity), (''roleName'', JStr role)]"

definition inner_schema :: "json list \<Rightarrow> json list \<Rightarrow> json list \<Rightarrow> json" where
  "inner_schema ps children_a children_b =
     JObj [(''@id'', JStr ''cmu:Schema/inner''),
           (''entities'',
            JArr [JObj [(''@id'', JStr ''cmu:e/actor''), (''name'', JStr ''actor''),
                        (''privateData'', JObj [(''isSchemaArg'', JBool True)])],
                  JObj [(''@id'', JStr ''cmu:e/place''), (''name'', JStr ''place''),
                        (''privateData'', JObj [(''isSchemaArg'', JBool True)])],
                  JObj [(''@id'', JStr ''cmu:e/tool''), (''name'', JStr ''tool'')]]),
           (''events'',
            JArr [JObj [(''@id'', JStr ''cmu:ev/a''), (''name'', JStr ''a''),
                        (''participants'', JArr ps),
                        (''children'', JArr children_a)],
                  JObj [(''@id'', JStr ''cmu:ev/b''), (''name'', JStr ''b''),
                        (''participants'', JArr []),
                        (''children'', JArr children_b)]])]"

definition two_participants :: "json list" where
  "two_participants =
     [participant ''cmu:p/a1'' ''cmu:e/tool'' ''instrument'',
      participant ''cmu:p/a2'' ''cmu:e/place'' ''location'']"

definition child :: "string \<Rightarrow> json" where
  "child event_id = JObj [(''child'', JStr event_id)]"

definition plain_event :: json where
  "plain_event =
     JObj [(''@id'', JStr ''cmu:ev/start''), (''name'', JStr ''start''),
           (''participants'', JArr [])]"

definition placeholder_event :: json where
  "placeholder_event =
     JObj [(''@id'', JStr ''cmu:ev/step''), (''name'', JStr ''step''),
           (''wd_node'', JStr ''cmu:Schema/inner''),
           (''participants'', JArr [participant ''cmu:p/s1'' ''cmu:e/agent'' ''actor''])]"

definition outer_schema :: "json list \<Rightarrow> json" where
  "outer_schema events =
     JObj [(''@id'', JStr ''cmu:Schema/outer''),
           (''entities'', JArr [JObj [(''@id'', JStr ''cmu:e/agent''), (''name'', JStr ''agent'')]]),
           (''events'', JArr events)]"

definition schema_row :: "string \<Rightarrow> json \<Rightarrow> row" where
  "schema_row schema_id doc =
     \<lparr>atId = schema_id, lock_ts = None, holder_id = None, data = Dumps doc,
      quarantined = 0, note_col = None\<rparr>"

definition example_table :: "json list \<Rightarrow> json \<Rightarrow> table" where
  "example_table events inner =
     [schema_row ''cmu:Schema/outer'' (outer_schema events),
      schema_row ''cmu:Schema/inner'' inner]"

text \<open>The placeholder event as it stands in the library built from the outer schema alone,
  that library, and the subschema after the renaming and the binding of its arguments.\<close>

definition library_placeholder :: "string \<Rightarrow> string \<Rightarrow> json" where
  "library_placeholder event_id participant_id =
     JObj [(''@id'', JStr event_id), (''name'', JStr ''step''),
           (''wd_node'', JStr ''cmu:Schema/inner''),
           (''participants'',
            JArr [participant participant_id ''uuid-0'' ''actor'']),
           (''privateData'', JObj [(''originalDocumentId'', JStr ''cmu:Schema/outer'')])]"

definition library_plain :: json where
  "library_plain =
     JObj [(''@id'', JStr ''uuid-1''), (''name'', JStr ''start''),
           (''participants'', JArr []),
           (''privateData'', JObj [(''originalDocumentId'', JStr ''cmu:Schema/outer'')])]"

definition example_library :: "json list \<Rightarrow> (string \<times> json) list \<Rightarrow> json" where
  "example_library events private_data =
     JObj [(''@context'', JNull), (''sdfVersion'', JNull),
           (''@id'', JStr ''cmu:Schema/lib-sk6''),
           (''version'', JStr ''cmu-v0''),
           (''events'', JArr events),
           (''relations'', JArr []),
           (''entities'',
            JArr [JObj [(''@id'', JStr ''uuid-0''), (''name'', JStr ''agent''),
                        (''privateData'',
                         JObj [(''originalDocumentId'', JStr ''cmu:Schema/outer'')])]]),
           (''privateData'',
            JObj ((''inputDigest'', JStr ''sk6'') # private_data)),
           (''provenanceData'', JArr [])]"

definition constituents :: "(string \<times> json) list" where
  "constituents = [(''constitutentSchemas'', JArr [JStr ''cmu:Schema/outer''])]"

definition prepared_inner :: json where
  "prepared_inner =
     JObj [(''@id'', JStr ''cmu:Schema/inner''),
           (''entities'',
            JArr [JObj [(''@id'', JStr ''uuid-3''), (''name'', JStr ''actor''),
                        (''privateData'', JObj [(''isSchemaArg'', JBool True)])],
                  JObj [(''@id'', JStr ''uuid-4''), (''name'', JStr ''place''),
                        (''privateData'', JObj [(''isSchemaArg'', JBool True)])],
                  JObj [(''@id'', JStr ''uuid-5''), (''name'', JStr ''tool'')]]),
           (''events'',
            JArr [JObj [(''@id'', JStr ''uuid-6''), (''name'', JStr ''a''),
                        (''participants'',
                         JArr [participant ''uuid-8'' ''uuid-5'' ''instrument'',
                               participant ''uuid-9'' ''uuid-4'' ''location'']),
                        (''children'', JArr [])],
                  JObj [(''@id'', JStr ''uuid-7''), (''name'', JStr ''b''),
                        (''participants'', JArr []),
                        (''children'', JArr [])]])]"

text \<open>
  The rename in the words of the specification. An event references an identifier when its
  external-taxonomy node field \<^verbatim>\<open>wd_node\<close> holds it, and a stored document refers to the
  identifier when it is not quarantined and one of its events references it. Re-pointing an
  event sets its node field to the new identifier and its label \<^verbatim>\<open>wd_label\<close> to the part of the
  new identifier after the last slash; re-pointing a document re-points each of its events.
\<close>

definition field :: "json \<Rightarrow> string \<Rightarrow> json option" where
  "field j k = (case j of JObj kvs \<Rightarrow> map_of kvs k | _ \<Rightarrow> None)"

text \<open>A dict with the key \<open>k\<close> set to \<open>v\<close>: the entry of the key is replaced where it stands,
  and a key that is not there is added at the end.\<close>

definition with_field :: "string \<Rightarrow> json \<Rightarrow> json \<Rightarrow> json" where
  "with_field k v j =
     (case j of
        JObj kvs \<Rightarrow>
          JObj (case dropWhile (\<lambda>kv. fst kv \<noteq> k) kvs of
                  [] \<Rightarrow> kvs @ [(k, v)]
                | kv # rest \<Rightarrow> takeWhile (\<lambda>kv. fst kv \<noteq> k) kvs @ (k, v) # rest)
      | _ \<Rightarrow> j)"

fun after_last_slash :: "string \<Rightarrow> string" where
  "after_last_slash [] = []"
| "after_last_slash (c # cs) =
     (if CHR ''/'' \<in> set cs then after_last_slash cs
      else if c = CHR ''/'' then cs else c # cs)"

definition references_node :: "string \<Rightarrow> json \<Rightarrow> bool" where
  "references_node old_id e = (field e ''wd_node'' = Some (JStr old_id))"

definition events_of :: "json \<Rightarrow> json list" where
  "events_of j = (case field j ''events'' of Some (JArr es) \<Rightarrow> es | _ \<Rightarrow> [])"

definition document_refers :: "string \<Rightarrow> json \<Rightarrow> bool" where
  "document_refers old_id j = list_ex (references_node old_id) (events_of j)"

definition repointed_event :: "string \<Rightarrow> string \<Rightarrow> json \<Rightarrow> json" where
  "repointed_event old_id new_id e =
     (if references_node old_id e
      then with_field ''wd_label'' (JStr (after_last_slash new_id))
             (with_field ''wd_node'' (JStr new_id) e)
      else e)"

definition repointed_document :: "string \<Rightarrow> string \<Rightarrow> json \<Rightarrow> json" where
  "repointed_document old_id new_id j =
     with_field ''events'' (JArr (map (repointed_event old_id new_id) (events_of j))) j"

definition referring_row :: "string \<Rightarrow> row \<Rightarrow> bool" where
  "referring_row old_id r =
     (quarantined r = 0 \<and>
      (case data r of Dumps j \<Rightarrow> document_refers old_id j | NotJson s \<Rightarrow> False))"

text \<open>The table after a rename that goes through: the document is stored under its new
  identifier, every referring document is stored re-pointed, and all of them are leased to
  the caller; the other rows are as they were.\<close>

definition rename_result :: "int \<Rightarrow> string \<Rightarrow> json \<Rightarrow> string \<Rightarrow> string \<Rightarrow> table \<Rightarrow> table" where
  "rename_result now old_id sdf_data new_id client_id tbl =
     map (\<lambda>r. if atId r = old_id
              then r\<lparr>atId := new_id, lock_ts := Some now, holder_id := Some client_id,
                     data := Dumps sdf_data, quarantined := 0\<rparr>
              else if referring_row old_id r
              then r\<lparr>lock_ts := Some now, holder_id := Some client_id,
                     data := Dumps (repointed_document old_id new_id (the_doc r))\<rparr>
              else r) tbl"

section \<open>Properties of the lock manager\<close>

lemma select_atId_empty: "select_atId i tbl = [] \<longleftrightarrow> i \<notin> atId ` set tbl"
  by (auto simp: select_atId_def filter_empty_conv)

lemma select_atId_row:
  "primary_key tbl \<Longrightarrow> r \<in> set tbl \<Longrightarrow> select_atId (atId r) tbl = [r]"
  unfolding primary_key_def
proof (induction tbl)
  case Nil then show ?case by simp
next
  case (Cons a tbl)
  then show ?case
    by (auto simp: select_atId_def filter_empty_conv image_iff)
qed

lemma set_lock_row:
  assumes "primary_key tbl" "r \<in> set tbl"
  shows "set_lock now acquire (atId r) client_id tbl =
           (if lockable now client_id r
            then Inr (if acquire then acquired now (atId r) client_id tbl else released (atId r) tbl)
            else Inl HTTPConflict)"
  using select_atId_row[OF assms]
  by (simp add: set_lock_def lockable_def acquired_def released_def)

lemma set_lock_missing:
  "schema_id \<notin> atId ` set tbl \<Longrightarrow> set_lock now acquire schema_id client_id tbl = Inl HTTPNotFound"
  by (simp add: set_lock_def select_atId_empty[THEN iffD2])

lemma atId_acquired [simp]: "map atId (acquired now i c tbl) = map atId tbl"
  by (simp add: acquired_def comp_def cong: if_cong)

lemma primary_key_acquired [simp]: "primary_key (acquired now i c tbl) = primary_key tbl"
  by (simp add: primary_key_def)

text \<open>
  Claim C2. On a table with its primary key, acquiring a lease fails with NotFound exactly
  when no row has the identifier, and with Conflict exactly when the row has a lease
  timestamp not older than \<open>LOCK_LIFETIME\<close> and a holder other than the caller. In every
  other case it returns the table in which that row has the caller as holder and \<open>now\<close> as
  timestamp. After such an acquisition another holder is refused while the lease is within
  its lifetime and takes the lease over once it is older.
\<close>

theorem acquire_outcomes:
  assumes pk: "primary_key tbl"
  shows "(set_lock now True schema_id client_id tbl = Inl HTTPNotFound
            \<longleftrightarrow> schema_id \<notin> atId ` set tbl)
       \<and> (set_lock now True schema_id client_id tbl = Inl HTTPConflict
            \<longleftrightarrow> (\<exists>r \<in> set tbl. atId r = schema_id
                   \<and> (\<exists>ts. lock_ts r = Some ts \<and> now - ts \<le> LOCK_LIFETIME)
                   \<and> holder_id r \<noteq> Some client_id))
       \<and> (set_lock now True schema_id client_id tbl \<noteq> Inl HTTPNotFound
            \<and> set_lock now True schema_id client_id tbl \<noteq> Inl HTTPConflict
            \<longrightarrow> set_lock now True schema_id client_id tbl
                  = Inr (acquired now schema_id client_id tbl))
       \<and> (\<forall>other later. other \<noteq> client_id
            \<and> set_lock now True schema_id client_id tbl = Inr (acquired now schema_id client_id tbl)
            \<longrightarrow> (later - now \<le> LOCK_LIFETIME
                    \<longrightarrow> set_lock later True schema_id other (acquired now schema_id client_id tbl)
                          = Inl HTTPConflict)
              \<and> (later - now > LOCK_LIFETIME
                    \<longrightarrow> set_lock later True schema_id other (acquired now schema_id client_id tbl)
                          = Inr (acquired later schema_id other (acquired now schema_id client_id tbl))))"
proof (cases "schema_id \<in> atId ` set tbl")
  case False
  then show ?thesis by (auto simp: set_lock_missing)
next
  case True
  then obtain r where r: "r \<in> set tbl" "atId r = schema_id" by auto
  have uniq: "\<And>r'. r' \<in> set tbl \<Longrightarrow> atId r' = schema_id \<Longrightarrow> r' = r"
    using pk r by (auto simp: primary_key_def distinct_map inj_on_def)
  have sl: "set_lock now True schema_id client_id tbl =
             (if lockable now client_id r then Inr (acquired now schema_id client_id tbl)
              else Inl HTTPConflict)"
    using set_lock_row[OF pk r(1), of now True client_id] r(2) by simp
  have lk: "lockable now client_id r \<longleftrightarrow>
        \<not> ((\<exists>ts. lock_ts r = Some ts \<and> now - ts \<le> LOCK_LIFETIME) \<and> holder_id r \<noteq> Some client_id)"
    by (auto simp: lockable_def lock_is_valid_def split: option.splits)
  let ?r' = "r\<lparr>lock_ts := Some now, holder_id := Some client_id\<rparr>"
  have r': "?r' \<in> set (acquired now schema_id client_id tbl)" "atId ?r' = schema_id"
    using r by (auto simp: acquired_def image_iff intro!: bexI[of _ r])
  have sl2: "set_lock later True schema_id other (acquired now schema_id client_id tbl) =
             (if lockable later other ?r'
              then Inr (acquired later schema_id other (acquired now schema_id client_id tbl))
              else Inl HTTPConflict)" for later other
    using set_lock_row[of "acquired now schema_id client_id tbl" ?r' later True other] r' pk
    by simp
  have c1: "set_lock now True schema_id client_id tbl \<noteq> Inl HTTPNotFound"
    using sl by simp
  have c2: "(set_lock now True schema_id client_id tbl = Inl HTTPConflict) \<longleftrightarrow>
      (\<exists>r \<in> set tbl. atId r = schema_id
                   \<and> (\<exists>ts. lock_ts r = Some ts \<and> now - ts \<le> LOCK_LIFETIME)
                   \<and> holder_id r \<noteq> Some client_id)"
  proof -
    have "(\<exists>r' \<in> set tbl. atId r' = schema_id
                   \<and> (\<exists>ts. lock_ts r' = Some ts \<and> now - ts \<le> LOCK_LIFETIME)
                   \<and> holder_id r' \<noteq> Some client_id) \<longleftrightarrow> \<not> lockable now client_id r"
      using r uniq lk by metis
    then show ?thesis using sl by simp
  qed
  have c3: "set_lock now True schema_id client_id tbl \<noteq> Inl HTTPConflict
            \<longrightarrow> set_lock now True schema_id client_id tbl
                  = Inr (acquired now schema_id client_id tbl)"
    using sl by (simp split: if_splits)
  have c4: "other \<noteq> client_id \<Longrightarrow>
     (later - now \<le> LOCK_LIFETIME
                    \<longrightarrow> set_lock later True schema_id other (acquired now schema_id client_id tbl)
                          = Inl HTTPConflict)
              \<and> (later - now > LOCK_LIFETIME
                    \<longrightarrow> set_lock later True schema_id other (acquired now schema_id client_id tbl)
                          = Inr (acquired later schema_id other (acquired now schema_id client_id tbl)))"
    for other later
    by (simp add: sl2 lockable_def lock_is_valid_def)
  show ?thesis
    apply (intro conjI allI impI)
    subgoal using True c1 by simp
    subgoal using c2 .
    subgoal using c3 by simp
    subgoal using c4 by simp
    subgoal using c4 by simp
    done
qed

theorem acquire_outcomes_witness:
  "primary_key [row_a None None]
   \<and> set_lock 100 True ''cmu:Schema/b'' ''A'' [row_a None None] = Inl HTTPNotFound
   \<and> set_lock 100 True ''cmu:Schema/a'' ''A'' [row_a None None] = Inr [row_a (Some 100) (Some ''A'')]
   \<and> set_lock 120 True ''cmu:Schema/a'' ''B'' [row_a (Some 100) (Some ''A'')] = Inl HTTPConflict
   \<and> set_lock 121 True ''cmu:Schema/a'' ''B'' [row_a (Some 100) (Some ''A'')]
         = Inr [row_a (Some 121) (Some ''B'')]"
proof -
  have pk: "primary_key [row_a None None]"
    by (simp add: primary_key_def)
  have acq: "acquired 100 ''cmu:Schema/a'' ''A'' [row_a None None] = [row_a (Some 100) (Some ''A'')]"
    by (simp add: acquired_def row_a_def)
  have acq2: "acquired 121 ''cmu:Schema/a'' ''B'' [row_a (Some 100) (Some ''A'')]
                = [row_a (Some 121) (Some ''B'')]"
    by (simp add: acquired_def row_a_def)
  note b = acquire_outcomes[OF pk, of 100 "''cmu:Schema/b''" "''A''"]
  note a = acquire_outcomes[OF pk, of 100 "''cmu:Schema/a''" "''A''"]
  have 1: "set_lock 100 True ''cmu:Schema/b'' ''A'' [row_a None None] = Inl HTTPNotFound"
    by (rule b[THEN conjunct1, THEN iffD2]) (simp add: row_a_def)
  have nf: "set_lock 100 True ''cmu:Schema/a'' ''A'' [row_a None None] \<noteq> Inl HTTPNotFound"
    unfolding a[THEN conjunct1] by (simp add: row_a_def)
  have nc: "set_lock 100 True ''cmu:Schema/a'' ''A'' [row_a None None] \<noteq> Inl HTTPConflict"
    unfolding a[THEN conjunct2, THEN conjunct1] by (simp add: row_a_def)
  have 2: "set_lock 100 True ''cmu:Schema/a'' ''A'' [row_a None None]
             = Inr (acquired 100 ''cmu:Schema/a'' ''A'' [row_a None None])"
    using a[THEN conjunct2, THEN conjunct2, THEN conjunct1] nf nc by blast
  have ne: "(''B''::string) \<noteq> ''A''" by simp
  note m = a[THEN conjunct2, THEN conjunct2, THEN conjunct2, rule_format, OF conjI, OF ne 2,
             unfolded acq]
  have 3: "set_lock 120 True ''cmu:Schema/a'' ''B'' [row_a (Some 100) (Some ''A'')] = Inl HTTPConflict"
    by (rule m[THEN conjunct1, rule_format]) (simp add: LOCK_LIFETIME_def)
  have 4: "set_lock 121 True ''cmu:Schema/a'' ''B'' [row_a (Some 100) (Some ''A'')]
         = Inr (acquired 121 ''cmu:Schema/a'' ''B'' [row_a (Some 100) (Some ''A'')])"
    by (rule m[THEN conjunct2, rule_format]) (simp add: LOCK_LIFETIME_def)
  show ?thesis using pk 1 2[unfolded acq] 3 4[unfolded acq2] by blast
qed

text \<open>
  Claim C6, as stated, fails: releasing runs the same validity check as acquiring, so a
  caller who is not the holder of a lease still within its lifetime gets Conflict.
\<close>

theorem release_blocked_counterexample:
  "set_lock 110 False ''cmu:Schema/a'' ''B'' [row_a (Some 100) (Some ''A'')] = Inl HTTPConflict"
  by (simp add: set_lock_def select_atId_def row_a_def lock_is_valid_def LOCK_LIFETIME_def)

text \<open>
  Claim C6, amended. Releasing a lease on a missing document fails with NotFound. On an
  existing document it fails with Conflict when another holder's lease is within its
  lifetime; otherwise (no lease, an expired lease, or the caller's own lease) it clears
  holder and timestamp.
\<close>

theorem release_outcomes:
  assumes "primary_key tbl"
  shows "(schema_id \<notin> atId ` set tbl
            \<longrightarrow> set_lock now False schema_id client_id tbl = Inl HTTPNotFound)
       \<and> (\<forall>r \<in> set tbl. atId r = schema_id \<longrightarrow>
            set_lock now False schema_id client_id tbl =
              (if lock_is_valid now r \<and> holder_id r \<noteq> Some client_id
               then Inl HTTPConflict else Inr (released schema_id tbl)))"
  using set_lock_row[OF assms, of _ now False client_id]
  by (auto simp: set_lock_missing lockable_def)

theorem release_outcomes_witness:
  "primary_key [row_a (Some 100) (Some ''A'')]
   \<and> set_lock 110 False ''cmu:Schema/b'' ''A'' [row_a (Some 100) (Some ''A'')] = Inl HTTPNotFound
   \<and> set_lock 110 False ''cmu:Schema/a'' ''B'' [row_a (Some 100) (Some ''A'')] = Inl HTTPConflict
   \<and> set_lock 110 False ''cmu:Schema/a'' ''A'' [row_a (Some 100) (Some ''A'')] = Inr [row_a None None]
   \<and> set_lock 121 False ''cmu:Schema/a'' ''B'' [row_a (Some 100) (Some ''A'')] = Inr [row_a None None]"
proof -
  have pk: "primary_key [row_a (Some 100) (Some ''A'')]"
    by (simp add: primary_key_def)
  have rel: "released ''cmu:Schema/a'' [row_a (Some 100) (Some ''A'')] = [row_a None None]"
    by (simp add: released_def row_a_def)
  show ?thesis
    using pk rel release_outcomes[OF pk, of "''cmu:Schema/b''" 110 "''A''"]
      release_outcomes[OF pk, of "''cmu:Schema/a''" 110 "''B''"]
      release_outcomes[OF pk, of "''cmu:Schema/a''" 110 "''A''"]
      release_outcomes[OF pk, of "''cmu:Schema/a''" 121 "''B''"]
    by (simp add: row_a_def lock_is_valid_def LOCK_LIFETIME_def)
qed




lemma set_lock_Inr:
  assumes "set_lock now acquire i c tbl = Inr tbl'"
  shows "map atId tbl' = map atId tbl \<and> i \<in> atId ` set tbl"
proof -
  have ne: "select_atId i tbl \<noteq> []"
    using assms by (auto simp: set_lock_def split: list.splits)
  have "map atId tbl' = map atId tbl"
    using assms by (auto simp: set_lock_def comp_def split: list.splits if_splits cong: if_cong)
  then show ?thesis using ne by (simp add: select_atId_empty)
qed

lemma update_schema_same_atIds:
  "update_schema i d i tbl = Inr tbl' \<Longrightarrow> map atId tbl' = map atId tbl"
  by (auto simp: update_schema_def comp_def cong: if_cong)

lemma write_schema_same_id_atIds:
  "write_schema_same_id now i d c tbl = Inr tbl' \<Longrightarrow> map atId tbl' = map atId tbl"
  by (auto simp: write_schema_same_id_def ebind_def split: sum.splits
      dest!: set_lock_Inr update_schema_same_atIds)

lemma lock_referring_atIds:
  "lock_referring now c refs tbl = Inr tbl' \<Longrightarrow> map atId tbl' = map atId tbl"
proof (induction refs arbitrary: tbl)
  case Nil then show ?case by simp
next
  case (Cons a refs)
  then show ?case
    by (auto simp: ebind_def split: sum.splits dest!: set_lock_Inr)
qed

lemma write_referring_atIds:
  "write_referring now old new c refs tbl = Inr tbl' \<Longrightarrow> map atId tbl' = map atId tbl"
proof (induction refs arbitrary: tbl)
  case Nil then show ?case by simp
next
  case (Cons a refs)
  then show ?case
    by (auto simp: ebind_def split: sum.splits dest!: write_schema_same_id_atIds)
qed

lemma change_referring_schemas_atIds:
  "change_referring_schemas now old new c tbl = Inr tbl' \<Longrightarrow> map atId tbl' = map atId tbl"
  by (auto simp: change_referring_schemas_def ebind_def split: sum.splits if_splits
      dest!: lock_referring_atIds write_referring_atIds)

text \<open>
  Claim C10. A write that succeeds leaves a row under the written document's identifier, and
  every row under that identifier holds the written document with the quarantine flag 0,
  whatever the flag was before.
\<close>

theorem write_clears_quarantine:
  assumes "write_schema now schema_id sdf_data client_id tbl = Inr tbl'"
  shows "\<exists>new_id. py_str_item sdf_data ''@id'' = Inr new_id
           \<and> (\<exists>r \<in> set tbl'. atId r = new_id)
           \<and> (\<forall>r \<in> set tbl'. atId r = new_id \<longrightarrow> quarantined r = 0 \<and> data r = Dumps sdf_data)"
proof -
  from assms obtain tbl1 new_id tbl2 where
    l: "set_lock now True schema_id client_id tbl = Inr tbl1" and
    n: "py_str_item sdf_data ''@id'' = Inr new_id" and
    c: "change_referring_schemas now schema_id new_id client_id tbl1 = Inr tbl2" and
    u: "update_schema schema_id (Dumps sdf_data) new_id tbl2 = Inr tbl'"
    by (auto simp: write_schema_def ebind_def split: sum.splits)
  have ids: "map atId tbl2 = map atId tbl" and ex: "schema_id \<in> atId ` set tbl"
    using set_lock_Inr[OF l] change_referring_schemas_atIds[OF c] by simp_all
  have ex2: "schema_id \<in> atId ` set tbl2"
    using ex ids by (metis list.set_map)
  have free: "new_id \<noteq> schema_id \<Longrightarrow> new_id \<notin> atId ` set tbl2"
    using u ex2 by (auto simp: update_schema_def select_atId_empty split: if_splits)
  have tbl': "tbl' = map (\<lambda>r. if atId r = schema_id
                          then r\<lparr>data := Dumps sdf_data, atId := new_id, quarantined := 0\<rparr>
                          else r) tbl2"
    using u by (auto simp: update_schema_def split: if_splits)
  have a: "\<exists>r \<in> set tbl'. atId r = new_id"
  proof -
    from ex2 obtain x where x: "x \<in> set tbl2" "atId x = schema_id" by auto
    have "x\<lparr>data := Dumps sdf_data, atId := new_id, quarantined := 0\<rparr> \<in> set tbl'"
      unfolding tbl' using x by (auto simp: image_iff intro!: bexI[of _ x])
    then show ?thesis by (auto intro!: bexI[of _ "x\<lparr>data := Dumps sdf_data, atId := new_id, quarantined := 0\<rparr>"])
  qed
  have b: "\<forall>r \<in> set tbl'. atId r = new_id \<longrightarrow> quarantined r = 0 \<and> data r = Dumps sdf_data"
  proof (intro ballI impI)
    fix r assume r: "r \<in> set tbl'" "atId r = new_id"
    from r(1) obtain x where x: "x \<in> set tbl2"
      and rx: "r = (if atId x = schema_id
                   then x\<lparr>data := Dumps sdf_data, atId := new_id, quarantined := 0\<rparr> else x)"
      unfolding tbl' by auto
    show "quarantined r = 0 \<and> data r = Dumps sdf_data"
    proof (cases "atId x = schema_id")
      case True
      then show ?thesis using rx by simp
    next
      case False
      then have "r = x" using rx by simp
      then have "new_id \<in> atId ` set tbl2" "new_id \<noteq> schema_id"
        using x r(2) False by auto
      then show ?thesis using free by simp
    qed
  qed
  show ?thesis using n a b by blast
qed

lemma write_row_q:
  "write_schema 100 ''cmu:Schema/a'' doc_a ''A'' [row_q] = Inr [row_a (Some 100) (Some ''A'')\<lparr>note_col := Some ''Not valid JSON''\<rparr>]"
  by (simp add: write_schema_def set_lock_def select_atId_def row_q_def lock_is_valid_def ebind_def
      py_str_item_def py_item_def doc_a_def change_referring_schemas_def update_schema_def row_a_def)

theorem write_clears_quarantine_witness:
  "quarantined row_q = 1
   \<and> write_schema 100 ''cmu:Schema/a'' doc_a ''A'' [row_q]
       = Inr [row_a (Some 100) (Some ''A'')\<lparr>note_col := Some ''Not valid JSON''\<rparr>]
   \<and> quarantined (row_a (Some 100) (Some ''A'')\<lparr>note_col := Some ''Not valid JSON''\<rparr>) = 0
   \<and> data (row_a (Some 100) (Some ''A'')\<lparr>note_col := Some ''Not valid JSON''\<rparr>) = Dumps doc_a"
proof -
  have i: "py_str_item doc_a ''@id'' = Inr ''cmu:Schema/a''"
    by (simp add: py_str_item_def py_item_def doc_a_def ebind_def)
  from write_clears_quarantine[OF write_row_q] i
  have "\<forall>r \<in> set [row_a (Some 100) (Some ''A'')\<lparr>note_col := Some ''Not valid JSON''\<rparr>].
          atId r = ''cmu:Schema/a'' \<longrightarrow> quarantined r = 0 \<and> data r = Dumps doc_a"
    by auto
  then have "quarantined (row_a (Some 100) (Some ''A'')\<lparr>note_col := Some ''Not valid JSON''\<rparr>) = 0
     \<and> data (row_a (Some 100) (Some ''A'')\<lparr>note_col := Some ''Not valid JSON''\<rparr>) = Dumps doc_a"
    by (simp add: row_a_def)
  then show ?thesis using write_row_q by (simp add: row_q_def)
qed

section \<open>Properties of the rename pass\<close>

lemma any_wd_node_total:
  "list_all is_obj es \<Longrightarrow> \<exists>b. any_wd_node old_id es = Inr b"
proof (induction es)
  case Nil then show ?case by auto
next
  case (Cons e es)
  then show ?case
    by (auto simp: is_obj_def py_get_def ebind_def split: json.splits option.splits)
qed

lemma refers_to_total:
  "doc_shape j \<Longrightarrow> \<exists>b. refers_to old_id j = Inr b"
  using any_wd_node_total[of _ old_id]
  by (auto simp: doc_shape_def refers_to_def py_get_def py_iter_def ebind_def
      split: json.splits option.splits)

lemma map_err_repoint_total:
  "list_all is_obj es \<Longrightarrow> \<exists>es'. map_err (repoint_event old_id new_id) es = Inr es'"
proof (induction es)
  case Nil then show ?case by simp
next
  case (Cons e es)
  then show ?case
    by (auto simp: is_obj_def repoint_event_def py_get_def ebind_def
        split: json.splits option.splits)
qed

lemma repoint_schema_total:
  assumes "doc_shape j" "refers_to old_id j = Inr True"
  shows "repoint_schema old_id new_id j = Inr (repointed old_id new_id j)
         \<and> py_str_item (repointed old_id new_id j) ''@id'' = py_str_item j ''@id''"
proof -
  from assms(1) obtain kvs where j: "j = JObj kvs"
    by (auto simp: doc_shape_def split: json.splits)
  from assms j obtain es where es: "map_of kvs ''events'' = Some (JArr es)" "list_all is_obj es"
    by (auto simp: doc_shape_def refers_to_def py_get_def py_iter_def ebind_def
        split: json.splits option.splits)
  from map_err_repoint_total[OF es(2)] obtain es' where
    es': "map_err (repoint_event old_id new_id) es = Inr es'" by blast
  have r: "repoint_schema old_id new_id j = Inr (py_set_item j ''events'' (JArr es'))"
    using j es es' by (simp add: repoint_schema_def py_item_def ebind_def)
  have "py_str_item (py_set_item j ''events'' (JArr es')) ''@id'' = py_str_item j ''@id''"
    using j by (simp add: py_str_item_def py_item_def py_set_item_def update_conv')
  then show ?thesis using r by (simp add: repointed_def)
qed

lemma loads_all_rows:
  "list_all row_ok tbl \<Longrightarrow>
   loads_all (map data (filter (\<lambda>r. quarantined r = 0) tbl))
     = Inr (map the_doc (filter (\<lambda>r. quarantined r = 0) tbl))"
proof (induction tbl)
  case Nil then show ?case by simp
next
  case (Cons r tbl)
  then show ?case
    by (auto simp: row_ok_def the_doc_def json_loads_def ebind_def split: stored_text.splits)
qed

lemma referring_schemas_rows:
  "list_all row_ok tbl \<Longrightarrow>
   referring_schemas old_id (map the_doc (filter (\<lambda>r. quarantined r = 0) tbl))
     = Inr (map the_doc (filter (referrer old_id) tbl))"
proof (induction tbl)
  case Nil then show ?case by simp
next
  case (Cons r tbl)
  show ?case
  proof (cases "quarantined r = 0")
    case False
    then show ?thesis using Cons by (simp add: referrer_def)
  next
    case True
    with Cons.prems obtain j where j: "data r = Dumps j" "doc_shape j"
      by (auto simp: row_ok_def split: stored_text.splits)
    from refers_to_total[OF j(2), of old_id] obtain b where b: "refers_to old_id j = Inr b"
      by blast
    show ?thesis using Cons True j b
      by (simp add: referrer_def the_doc_def ebind_def)
  qed
qed

lemma acquired_locked:
  "acquired now i c tbl = map (\<lambda>r. if atId r = i then locked now c r else r) tbl"
  by (simp add: acquired_def locked_def)

lemma locked_simps [simp]:
  "atId (locked now c r) = atId r"
  "data (locked now c r) = data r"
  "quarantined (locked now c r) = quarantined r"
  "lockable now c' (locked now c r) \<longleftrightarrow> c' = c"
  "locked now c (locked now c r) = locked now c r"
  by (auto simp: locked_def lockable_def lock_is_valid_def LOCK_LIFETIME_def)

lemma primary_key_map:
  "(\<And>r. atId (f r) = atId r) \<Longrightarrow> primary_key (map f tbl) = primary_key tbl"
  by (simp add: primary_key_def comp_def)

lemma atIds_map:
  "(\<And>r. atId (f r) = atId r) \<Longrightarrow> atId ` set (map f tbl) = atId ` set tbl"
  by (simp add: image_image)

lemma primary_key_unique:
  "primary_key tbl \<Longrightarrow> r \<in> set tbl \<Longrightarrow> r' \<in> set tbl \<Longrightarrow> atId r = atId r' \<Longrightarrow> r = r'"
  by (auto simp: primary_key_def distinct_map inj_on_def)

lemma lock_referring_ok:
  assumes "primary_key tbl"
    and "\<forall>r \<in> set rs. py_str_item (the_doc r) ''@id'' = Inr (atId r) \<and> atId r \<in> atId ` set tbl"
    and "\<forall>r \<in> set tbl. atId r \<in> atId ` set rs \<longrightarrow> lockable now c r"
  shows "lock_referring now c (map the_doc rs) tbl
           = Inr (map (\<lambda>r. if atId r \<in> atId ` set rs then locked now c r else r) tbl)"
  using assms
proof (induction rs arbitrary: tbl)
  case Nil
  then show ?case by simp
next
  case (Cons r0 rs)
  from Cons.prems(2) obtain r' where r': "r' \<in> set tbl" "atId r' = atId r0"
    by auto
  have lk: "lockable now c r'" using Cons.prems(3) r' by simp
  let ?tbl1 = "map (\<lambda>r. if atId r = atId r0 then locked now c r else r) tbl"
  have sl: "set_lock now True (atId r0) c tbl = Inr ?tbl1"
    using set_lock_row[OF Cons.prems(1) r'(1), of now True c] lk r'(2)
    by (simp add: acquired_locked)
  have pk1: "primary_key ?tbl1"
    using Cons.prems(1) by (subst primary_key_map) auto
  have ids1: "\<forall>r \<in> set rs. py_str_item (the_doc r) ''@id'' = Inr (atId r) \<and> atId r \<in> atId ` set ?tbl1"
    using Cons.prems(2) by (subst atIds_map) auto
  have lk1: "\<forall>r \<in> set ?tbl1. atId r \<in> atId ` set rs \<longrightarrow> lockable now c r"
    using Cons.prems(3) by auto
  have "lock_referring now c (map the_doc (r0 # rs)) tbl = lock_referring now c (map the_doc rs) ?tbl1"
    using Cons.prems(2) sl by (simp add: ebind_def)
  also have "\<dots> = Inr (map (\<lambda>r. if atId r \<in> atId ` set rs then locked now c r else r) ?tbl1)"
    by (rule Cons.IH[OF pk1 ids1 lk1])
  also have "map (\<lambda>r. if atId r \<in> atId ` set rs then locked now c r else r) ?tbl1
           = map (\<lambda>r. if atId r \<in> atId ` set (r0 # rs) then locked now c r else r) tbl"
    unfolding map_map by (rule map_cong[OF refl]) auto
  finally show ?case .
qed

lemma lock_referring_conflict:
  assumes "primary_key tbl"
    and "\<forall>r \<in> set rs. py_str_item (the_doc r) ''@id'' = Inr (atId r) \<and> atId r \<in> atId ` set tbl"
    and "\<exists>r \<in> set tbl. atId r \<in> atId ` set rs \<and> \<not> lockable now c r"
  shows "lock_referring now c (map the_doc rs) tbl = Inl HTTPConflict"
  using assms
proof (induction rs arbitrary: tbl)
  case Nil
  then show ?case by simp
next
  case (Cons r0 rs)
  from Cons.prems(2) obtain r' where r': "r' \<in> set tbl" "atId r' = atId r0"
    by auto
  show ?case
  proof (cases "lockable now c r'")
    case False
    then have "set_lock now True (atId r0) c tbl = Inl HTTPConflict"
      using set_lock_row[OF Cons.prems(1) r'(1), of now True c] r'(2) by simp
    then show ?thesis using Cons.prems(2) by (simp add: ebind_def)
  next
    case True
    let ?tbl1 = "map (\<lambda>r. if atId r = atId r0 then locked now c r else r) tbl"
    have sl: "set_lock now True (atId r0) c tbl = Inr ?tbl1"
      using set_lock_row[OF Cons.prems(1) r'(1), of now True c] True r'(2)
      by (simp add: acquired_locked)
    have pk1: "primary_key ?tbl1"
      using Cons.prems(1) by (subst primary_key_map) auto
    have ids1: "\<forall>r \<in> set rs. py_str_item (the_doc r) ''@id'' = Inr (atId r) \<and> atId r \<in> atId ` set ?tbl1"
      using Cons.prems(2) by (subst atIds_map) auto
    from Cons.prems(3) obtain b where b: "b \<in> set tbl" "atId b \<in> atId ` set (r0 # rs)" "\<not> lockable now c b"
      by blast
    have "atId b \<noteq> atId r0"
      using primary_key_unique[OF Cons.prems(1) b(1) r'(1)] r'(2) True b(3) by auto
    then have "b \<in> set ?tbl1" "atId b \<in> atId ` set rs"
      using b by (auto simp: image_iff)
    then have bad1: "\<exists>r \<in> set ?tbl1. atId r \<in> atId ` set rs \<and> \<not> lockable now c r"
      using b(3) by blast
    have "lock_referring now c (map the_doc (r0 # rs)) tbl = lock_referring now c (map the_doc rs) ?tbl1"
      using Cons.prems(2) sl by (simp add: ebind_def)
    then show ?thesis using Cons.IH[OF pk1 ids1 bad1] by simp
  qed
qed

lemma rewritten_simps [simp]:
  "atId (rewritten now old new c r) = atId r"
  by (simp add: rewritten_def)

lemma write_schema_same_id_row:
  assumes "primary_key tbl" "r \<in> set tbl" "lockable now c r"
  shows "write_schema_same_id now (atId r) j c tbl
           = Inr (map (\<lambda>r'. if atId r' = atId r
                            then r'\<lparr>lock_ts := Some now, holder_id := Some c,
                                    data := Dumps j, quarantined := 0\<rparr>
                            else r') tbl)"
proof -
  have sl: "set_lock now True (atId r) c tbl = Inr (acquired now (atId r) c tbl)"
    using set_lock_row[OF assms(1,2), of now True c] assms(3) by simp
  have up: "update_schema (atId r) (Dumps j) (atId r) (acquired now (atId r) c tbl)
        = Inr (map (\<lambda>r'. if atId r' = atId r
                           then r'\<lparr>data := Dumps j, atId := atId r, quarantined := 0\<rparr> else r')
                 (acquired now (atId r) c tbl))"
    by (simp add: update_schema_def)
  have "map (\<lambda>r'. if atId r' = atId r
                           then r'\<lparr>data := Dumps j, atId := atId r, quarantined := 0\<rparr> else r')
                 (acquired now (atId r) c tbl)
       = map (\<lambda>r'. if atId r' = atId r
                            then r'\<lparr>lock_ts := Some now, holder_id := Some c,
                                    data := Dumps j, quarantined := 0\<rparr>
                            else r') tbl"
    unfolding acquired_def map_map by (rule map_cong[OF refl]) auto
  then show ?thesis using sl up by (simp add: write_schema_same_id_def ebind_def)
qed

lemma write_referring_ok:
  assumes "primary_key tbl"
    and "distinct (map atId rs)"
    and "\<forall>r \<in> set rs. doc_shape (the_doc r) \<and> refers_to old_id (the_doc r) = Inr True
            \<and> py_str_item (the_doc r) ''@id'' = Inr (atId r)
            \<and> (\<exists>r' \<in> set tbl. atId r' = atId r \<and> data r' = data r \<and> lockable now c r')"
  shows "write_referring now old_id new_id c (map the_doc rs) tbl
           = Inr (map (\<lambda>r. if atId r \<in> atId ` set rs
                           then rewritten now old_id new_id c r else r) tbl)"
  using assms
proof (induction rs arbitrary: tbl)
  case Nil
  then show ?case by simp
next
  case (Cons r0 rs)
  from Cons.prems(3) obtain r' where r': "r' \<in> set tbl" "atId r' = atId r0" "data r' = data r0"
      "lockable now c r'"
    by auto
  from Cons.prems(3) have sh: "doc_shape (the_doc r0)" "refers_to old_id (the_doc r0) = Inr True"
      "py_str_item (the_doc r0) ''@id'' = Inr (atId r0)"
    by auto
  note rp = repoint_schema_total[OF sh(1,2), of new_id]
  let ?j' = "repointed old_id new_id (the_doc r0)"
  let ?tbl1 = "map (\<lambda>r. if atId r = atId r0
                            then r\<lparr>lock_ts := Some now, holder_id := Some c,
                                    data := Dumps ?j', quarantined := 0\<rparr>
                            else r) tbl"
  have w: "write_schema_same_id now (atId r0) ?j' c tbl = Inr ?tbl1"
    using write_schema_same_id_row[OF Cons.prems(1) r'(1) r'(4), of ?j'] r'(2) by simp
  have pk1: "primary_key ?tbl1"
    using Cons.prems(1) by (subst primary_key_map) auto
  have d1: "distinct (map atId rs)" and notin: "atId r0 \<notin> atId ` set rs"
    using Cons.prems(2) by auto
  have rs1: "\<forall>r \<in> set rs. doc_shape (the_doc r) \<and> refers_to old_id (the_doc r) = Inr True
            \<and> py_str_item (the_doc r) ''@id'' = Inr (atId r)
            \<and> (\<exists>r' \<in> set ?tbl1. atId r' = atId r \<and> data r' = data r \<and> lockable now c r')"
  proof
    fix r assume r: "r \<in> set rs"
    with Cons.prems(3) obtain x where x: "x \<in> set tbl" "atId x = atId r" "data x = data r"
        "lockable now c x"
      by auto
    have "atId r \<in> atId ` set rs" using r by (rule imageI)
    then have "atId x \<noteq> atId r0" using notin x(2) by metis
    then have "x \<in> set ?tbl1" using x(1) by (auto simp: image_iff)
    then show "doc_shape (the_doc r) \<and> refers_to old_id (the_doc r) = Inr True
            \<and> py_str_item (the_doc r) ''@id'' = Inr (atId r)
            \<and> (\<exists>r' \<in> set ?tbl1. atId r' = atId r \<and> data r' = data r \<and> lockable now c r')"
      using Cons.prems(3) r x by auto
  qed
  have "write_referring now old_id new_id c (map the_doc (r0 # rs)) tbl
          = write_referring now old_id new_id c (map the_doc rs) ?tbl1"
    using rp sh(3) w by (simp add: ebind_def)
  also have "\<dots> = Inr (map (\<lambda>r. if atId r \<in> atId ` set rs
                           then rewritten now old_id new_id c r else r) ?tbl1)"
    by (rule Cons.IH[OF pk1 d1 rs1])
  also have "map (\<lambda>r. if atId r \<in> atId ` set rs
                           then rewritten now old_id new_id c r else r) ?tbl1
           = map (\<lambda>r. if atId r \<in> atId ` set (r0 # rs)
                           then rewritten now old_id new_id c r else r) tbl"
    unfolding map_map
  proof (rule map_cong[OF refl])
    fix x assume x: "x \<in> set tbl"
    show "((\<lambda>r. if atId r \<in> atId ` set rs then rewritten now old_id new_id c r else r) \<circ>
          (\<lambda>r. if atId r = atId r0
                then r\<lparr>lock_ts := Some now, holder_id := Some c, data := Dumps ?j', quarantined := 0\<rparr>
                else r)) x
        = (if atId x \<in> atId ` set (r0 # rs) then rewritten now old_id new_id c x else x)"
    proof (cases "atId x = atId r0")
      case True
      then have "x = r'" using primary_key_unique[OF Cons.prems(1) x r'(1)] r'(2) by simp
      then have "the_doc x = the_doc r0" using r'(3) by (simp add: the_doc_def)
      then show ?thesis using True notin by (simp add: rewritten_def)
    next
      case False
      then show ?thesis by simp
    qed
  qed
  finally show ?case .
qed

lemma store_ok_rows:
  assumes "store_ok tbl" "r \<in> set tbl" "quarantined r = 0"
  shows "data r = Dumps (the_doc r) \<and> doc_shape (the_doc r)
         \<and> py_str_item (the_doc r) ''@id'' = Inr (atId r)"
  using assms
  by (auto simp: store_ok_def list_all_iff row_ok_def the_doc_def split: stored_text.splits)

lemma referrer_ids:
  assumes "primary_key tbl" "r \<in> set tbl"
  shows "atId r \<in> atId ` set (filter (referrer old_id) tbl) \<longleftrightarrow> referrer old_id r"
proof
  assume "atId r \<in> atId ` set (filter (referrer old_id) tbl)"
  then obtain x where x: "x \<in> set tbl" "referrer old_id x" "atId x = atId r" by auto
  then have "x = r" using primary_key_unique[OF assms(1) x(1) assms(2)] by simp
  then show "referrer old_id r" using x by simp
next
  assume "referrer old_id r"
  then show "atId r \<in> atId ` set (filter (referrer old_id) tbl)"
    using assms(2) by auto
qed

lemma rewritten_locked [simp]:
  "rewritten now old_id new_id c (locked now c r) = rewritten now old_id new_id c r"
  by (simp add: rewritten_def locked_def the_doc_def)

lemma change_referring_setup:
  assumes "store_ok tbl" "old_id \<noteq> new_id"
  shows "change_referring_schemas now old_id new_id c tbl
           = ebind (lock_referring now c (map the_doc (filter (referrer old_id) tbl)) tbl)
               (write_referring now old_id new_id c (map the_doc (filter (referrer old_id) tbl)))"
  using assms loads_all_rows[of tbl] referring_schemas_rows[of tbl old_id]
  by (simp add: change_referring_schemas_def store_ok_def ebind_def)

lemma referrer_facts:
  assumes "store_ok tbl" "r \<in> set tbl" "referrer old_id r"
  shows "doc_shape (the_doc r)" "refers_to old_id (the_doc r) = Inr True"
    "py_str_item (the_doc r) ''@id'' = Inr (atId r)"
proof -
  have q: "quarantined r = 0" using assms(3) by (simp add: referrer_def)
  note f = store_ok_rows[OF assms(1,2) q]
  show "doc_shape (the_doc r)" "py_str_item (the_doc r) ''@id'' = Inr (atId r)"
    using f by simp_all
  show "refers_to old_id (the_doc r) = Inr True"
    using assms(3) f by (auto simp: referrer_def split: stored_text.splits)
qed

lemma change_referring_ok:
  assumes ok: "store_ok tbl" and ne: "old_id \<noteq> new_id"
    and lk: "\<forall>r \<in> set tbl. referrer old_id r \<longrightarrow> lockable now c r"
  shows "change_referring_schemas now old_id new_id c tbl
           = Inr (map (\<lambda>r. if referrer old_id r then rewritten now old_id new_id c r else r) tbl)"
proof -
  let ?rs = "filter (referrer old_id) tbl"
  let ?tblL = "map (\<lambda>r. if atId r \<in> atId ` set ?rs then locked now c r else r) tbl"
  have pk: "primary_key tbl" using ok by (simp add: store_ok_def)
  have a: "\<forall>r \<in> set ?rs. py_str_item (the_doc r) ''@id'' = Inr (atId r) \<and> atId r \<in> atId ` set tbl"
    using referrer_facts(3)[OF ok] by auto
  have b: "\<forall>r \<in> set tbl. atId r \<in> atId ` set ?rs \<longrightarrow> lockable now c r"
    using lk referrer_ids[OF pk] by blast
  have L: "lock_referring now c (map the_doc ?rs) tbl = Inr ?tblL"
    by (rule lock_referring_ok[OF pk a b])
  have pkL: "primary_key ?tblL"
    using pk by (subst primary_key_map) auto
  have d: "distinct (map atId ?rs)"
    using pk by (simp add: primary_key_def distinct_map_filter)
  have c: "\<forall>r \<in> set ?rs. doc_shape (the_doc r) \<and> refers_to old_id (the_doc r) = Inr True
            \<and> py_str_item (the_doc r) ''@id'' = Inr (atId r)
            \<and> (\<exists>r' \<in> set ?tblL. atId r' = atId r \<and> data r' = data r \<and> lockable now c r')"
  proof
    fix r assume r: "r \<in> set ?rs"
    then have rt: "r \<in> set tbl" "referrer old_id r" by auto
    have "atId r \<in> atId ` set ?rs" using r by (rule imageI)
    then have "locked now c r \<in> set ?tblL" using rt(1) by (auto simp: image_iff intro!: bexI[of _ r])
    then have "\<exists>r' \<in> set ?tblL. atId r' = atId r \<and> data r' = data r \<and> lockable now c r'"
      by (rule bexI[rotated]) simp
    then show "doc_shape (the_doc r) \<and> refers_to old_id (the_doc r) = Inr True
            \<and> py_str_item (the_doc r) ''@id'' = Inr (atId r)
            \<and> (\<exists>r' \<in> set ?tblL. atId r' = atId r \<and> data r' = data r \<and> lockable now c r')"
      using referrer_facts[OF ok rt] by simp
  qed
  have W: "write_referring now old_id new_id c (map the_doc ?rs) ?tblL
           = Inr (map (\<lambda>r. if atId r \<in> atId ` set ?rs
                           then rewritten now old_id new_id c r else r) ?tblL)"
    by (rule write_referring_ok[OF pkL d c])
  have "map (\<lambda>r. if atId r \<in> atId ` set ?rs then rewritten now old_id new_id c r else r) ?tblL
        = map (\<lambda>r. if referrer old_id r then rewritten now old_id new_id c r else r) tbl"
    unfolding map_map
  proof (rule map_cong[OF refl])
    fix x assume x: "x \<in> set tbl"
    show "((\<lambda>r. if atId r \<in> atId ` set ?rs then rewritten now old_id new_id c r else r) \<circ>
           (\<lambda>r. if atId r \<in> atId ` set ?rs then locked now c r else r)) x
          = (if referrer old_id x then rewritten now old_id new_id c x else x)"
      using referrer_ids[OF pk x, of old_id] by simp
  qed
  then show ?thesis
    using change_referring_setup[OF ok ne, of now c] L W by (simp add: ebind_def)
qed

lemma change_referring_conflict:
  assumes ok: "store_ok tbl" and ne: "old_id \<noteq> new_id"
    and bad: "\<exists>r \<in> set tbl. referrer old_id r \<and> \<not> lockable now c r"
  shows "change_referring_schemas now old_id new_id c tbl = Inl HTTPConflict"
proof -
  let ?rs = "filter (referrer old_id) tbl"
  have pk: "primary_key tbl" using ok by (simp add: store_ok_def)
  have a: "\<forall>r \<in> set ?rs. py_str_item (the_doc r) ''@id'' = Inr (atId r) \<and> atId r \<in> atId ` set tbl"
    using referrer_facts(3)[OF ok] by auto
  have b: "\<exists>r \<in> set tbl. atId r \<in> atId ` set ?rs \<and> \<not> lockable now c r"
    using bad referrer_ids[OF pk] by blast
  have "lock_referring now c (map the_doc ?rs) tbl = Inl HTTPConflict"
    by (rule lock_referring_conflict[OF pk a b])
  then show ?thesis
    using change_referring_setup[OF ok ne, of now c] by (simp add: ebind_def)
qed

lemma row_ok_locked [simp]: "row_ok (locked now c r) = row_ok r"
  by (simp add: row_ok_def split: stored_text.splits)

lemma store_ok_acquired:
  "store_ok tbl \<Longrightarrow> store_ok (acquired now i c tbl)"
  by (auto simp: store_ok_def acquired_locked list_all_iff primary_key_map)

lemma referrer_locked [simp]: "referrer old_id (locked now c r) = referrer old_id r"
  by (simp add: referrer_def)

lemma write_schema_outcomes:
  assumes ok: "store_ok tbl"
    and nid: "py_str_item sdf_data ''@id'' = Inr new_id"
    and ne: "new_id \<noteq> schema_id"
    and t: "t \<in> set tbl" "atId t = schema_id"
  shows "write_schema now schema_id sdf_data client_id tbl =
           (if \<exists>r \<in> set tbl. (atId r = schema_id \<or> referrer schema_id r) \<and> \<not> lockable now client_id r
            then Inl HTTPConflict
            else if new_id \<in> atId ` set tbl then Inl IntegrityError
            else Inr (renamed now schema_id sdf_data new_id client_id tbl))"
proof -
  have pk: "primary_key tbl" using ok by (simp add: store_ok_def)
  have tu: "\<And>r. r \<in> set tbl \<Longrightarrow> atId r = schema_id \<Longrightarrow> r = t"
    using primary_key_unique[OF pk _ t(1)] t(2) by simp
  show ?thesis
  proof (cases "lockable now client_id t")
    case False
    then have "set_lock now True schema_id client_id tbl = Inl HTTPConflict"
      using set_lock_row[OF pk t(1), of now True client_id] t(2) by simp
    then show ?thesis using False t by (auto simp: write_schema_def ebind_def)
  next
    case True
    let ?tbl1 = "acquired now schema_id client_id tbl"
    have sl: "set_lock now True schema_id client_id tbl = Inr ?tbl1"
      using set_lock_row[OF pk t(1), of now True client_id] t(2) True by simp
    have ok1: "store_ok ?tbl1" by (rule store_ok_acquired[OF ok])
    have ws: "write_schema now schema_id sdf_data client_id tbl =
          ebind (change_referring_schemas now schema_id new_id client_id ?tbl1)
            (update_schema schema_id (Dumps sdf_data) new_id)"
      using sl nid by (simp add: write_schema_def ebind_def)
    show ?thesis
    proof (cases "\<exists>r \<in> set tbl. referrer schema_id r \<and> \<not> lockable now client_id r")
      case bad: True
      then obtain b where b: "b \<in> set tbl" "referrer schema_id b" "\<not> lockable now client_id b"
        by blast
      have "atId b \<noteq> schema_id" using tu[OF b(1)] True b(3) by auto
      then have "b \<in> set ?tbl1" using b(1) by (auto simp: acquired_locked image_iff)
      then have "\<exists>r \<in> set ?tbl1. referrer schema_id r \<and> \<not> lockable now client_id r"
        using b by blast
      then have "change_referring_schemas now schema_id new_id client_id ?tbl1 = Inl HTTPConflict"
        using change_referring_conflict[OF ok1 ne[symmetric]] by simp
      then show ?thesis using ws bad by (auto simp: ebind_def)
    next
      case good: False
      have nobad: "\<not> (\<exists>r \<in> set tbl. (atId r = schema_id \<or> referrer schema_id r) \<and> \<not> lockable now client_id r)"
        using good True tu by blast
      have lk1: "\<forall>r \<in> set ?tbl1. referrer schema_id r \<longrightarrow> lockable now client_id r"
        using good by (auto simp: acquired_locked)
      let ?tbl2 = "map (\<lambda>r. if referrer schema_id r
                      then rewritten now schema_id new_id client_id r else r) ?tbl1"
      have ch: "change_referring_schemas now schema_id new_id client_id ?tbl1 = Inr ?tbl2"
        by (rule change_referring_ok[OF ok1 ne[symmetric] lk1])
      have ids2: "atId ` set ?tbl2 = atId ` set tbl"
        unfolding acquired_locked map_map by (rule atIds_map) simp
      have sel: "select_atId schema_id ?tbl2 \<noteq> []" "(select_atId new_id ?tbl2 \<noteq> []) = (new_id \<in> atId ` set tbl)"
        using t ids2 by (auto simp only: select_atId_empty simp_thms)
      show ?thesis
      proof (cases "new_id \<in> atId ` set tbl")
        case True
        then have "update_schema schema_id (Dumps sdf_data) new_id ?tbl2 = Inl IntegrityError"
          using sel ne by (simp add: update_schema_def)
        then show ?thesis using ws ch nobad True by (simp add: ebind_def)
      next
        case False
        then have up: "update_schema schema_id (Dumps sdf_data) new_id ?tbl2 =
             Inr (map (\<lambda>r. if atId r = schema_id
                          then r\<lparr>data := Dumps sdf_data, atId := new_id, quarantined := 0\<rparr>
                          else r) ?tbl2)"
          using sel by (simp add: update_schema_def)
        have "map (\<lambda>r. if atId r = schema_id
                          then r\<lparr>data := Dumps sdf_data, atId := new_id, quarantined := 0\<rparr>
                          else r) ?tbl2
              = renamed now schema_id sdf_data new_id client_id tbl"
          unfolding acquired_locked map_map renamed_def
        proof (rule map_cong[OF refl])
          fix x assume x: "x \<in> set tbl"
          have q: "referrer schema_id x \<Longrightarrow> quarantined x = 0" by (simp add: referrer_def)
          show "((\<lambda>r. if atId r = schema_id
                    then r\<lparr>data := Dumps sdf_data, atId := new_id, quarantined := 0\<rparr> else r) \<circ>
                 ((\<lambda>r. if referrer schema_id r then rewritten now schema_id new_id client_id r else r) \<circ>
                  (\<lambda>r. if atId r = schema_id then locked now client_id r else r))) x
                = (if atId x = schema_id
                   then x\<lparr>atId := new_id, lock_ts := Some now, holder_id := Some client_id,
                          data := Dumps sdf_data, quarantined := 0\<rparr>
                   else if referrer schema_id x
                   then x\<lparr>lock_ts := Some now, holder_id := Some client_id,
                          data := Dumps (repointed schema_id new_id (the_doc x))\<rparr>
                   else x)"
            using q by (auto simp: rewritten_def locked_def)
        qed
        then show ?thesis using ws ch up nobad False by (simp add: ebind_def)
      qed
    qed
  qed
qed

lemma repointed_no_longer_refers:
  assumes "list_all is_obj es" "map_err (repoint_event old_id new_id) es = Inr es'"
    "old_id \<noteq> new_id"
  shows "any_wd_node old_id es' = Inr False"
  using assms
proof (induction es arbitrary: es')
  case Nil
  then show ?case by simp
next
  case (Cons e es)
  from Cons.prems obtain kvs where e: "e = JObj kvs" by (auto simp: is_obj_def split: json.splits)
  from Cons.prems(2) obtain e' es1 where
    s: "repoint_event old_id new_id e = Inr e'" "map_err (repoint_event old_id new_id) es = Inr es1"
       "es' = e' # es1"
    by (auto simp: ebind_def split: sum.splits)
  have "py_get e' ''wd_node'' JNull \<noteq> Inr (JStr old_id) \<and> (\<exists>v. py_get e' ''wd_node'' JNull = Inr v)"
    using s(1) e Cons.prems(3)
    by (auto simp: repoint_event_def py_get_def py_set_item_def ebind_def update_conv'
        split: option.splits if_splits)
  then show ?case using Cons.IH[OF _ s(2) Cons.prems(3)] Cons.prems(1) s(3)
    by (auto simp: ebind_def)
qed

lemma repointed_not_referrer:
  assumes "doc_shape j" "refers_to old_id j = Inr True" "old_id \<noteq> new_id"
  shows "refers_to old_id (repointed old_id new_id j) = Inr False"
proof -
  from assms(1) obtain kvs where j: "j = JObj kvs"
    by (auto simp: doc_shape_def split: json.splits)
  from assms j obtain es where es: "map_of kvs ''events'' = Some (JArr es)" "list_all is_obj es"
    by (auto simp: doc_shape_def refers_to_def py_get_def py_iter_def ebind_def
        split: json.splits option.splits)
  from map_err_repoint_total[OF es(2)] obtain es' where
    es': "map_err (repoint_event old_id new_id) es = Inr es'" by blast
  have r: "repointed old_id new_id j = py_set_item j ''events'' (JArr es')"
    using j es es' by (simp add: repointed_def repoint_schema_def py_item_def ebind_def)
  have r': "repointed old_id new_id (JObj kvs) = JObj (AList.update ''events'' (JArr es') kvs)"
    using r j by (simp add: py_set_item_def)
  show ?thesis
    using repointed_no_longer_refers[OF es(2) es' assms(3)]
    by (simp add: j r' refers_to_def py_get_def update_conv' py_iter_def ebind_def)
qed

section \<open>Properties of reads and of the composition input\<close>

section \<open>Properties of the digest\<close>

lemma distinct_alphabet: "distinct alphabet"
  by (simp add: alphabet_def)

lemma length_alphabet: "length alphabet = 62"
  by (simp add: alphabet_def)

lemma index_of_nth:
  "distinct xs \<Longrightarrow> k < length xs \<Longrightarrow> length (takeWhile (\<lambda>a. a \<noteq> xs ! k) xs) = k"
proof (induction xs arbitrary: k)
  case Nil
  then show ?case by simp
next
  case (Cons x xs)
  then show ?case by (cases k) auto
qed

lemma digit_value_alphabet: "k < 62 \<Longrightarrow> digit_value (alphabet ! k) = k"
  unfolding digit_value_def
  by (rule index_of_nth[OF distinct_alphabet]) (simp add: length_alphabet)

lemma from_base62_append:
  "from_base62 (s @ t) = from_base62 s + 62 ^ length s * from_base62 t"
  by (induction s) (simp_all add: algebra_simps)

lemma base62_loop_value:
  "from_base62 (base62_loop n s) = from_base62 s + 62 ^ length s * n"
proof (induction n s rule: base62_loop.induct)
  case (1 n s)
  show ?case
  proof (cases "n > 0")
    case False
    then show ?thesis by (subst base62_loop.simps) simp
  next
    case True
    have "from_base62 (base62_loop n s)
            = from_base62 (base62_loop (n div 62) (s @ [alphabet ! (n mod 62)]))"
      using True by (subst base62_loop.simps) (simp add: length_alphabet)
    also have "\<dots> = from_base62 (s @ [alphabet ! (n mod 62)])
                      + 62 ^ length (s @ [alphabet ! (n mod 62)]) * (n div 62)"
      using "1.IH"[OF True] by (simp add: length_alphabet)
    also have "\<dots> = from_base62 s + 62 ^ length s * (n mod 62) + 62 ^ length s * (62 * (n div 62))"
      by (simp add: from_base62_append digit_value_alphabet)
    also have "\<dots> = from_base62 s + 62 ^ length s * (n mod 62 + 62 * (n div 62))"
      by (simp only: distrib_left add.assoc)
    also have "n mod 62 + 62 * (n div 62) = n"
      by simp
    finally show ?thesis .
  qed
qed

lemma base62_loop_chars:
  "set s \<subseteq> set alphabet \<Longrightarrow> set (base62_loop n s) \<subseteq> set alphabet"
proof (induction n s rule: base62_loop.induct)
  case (1 n s)
  show ?case
  proof (cases "n > 0")
    case False
    then show ?thesis using "1.prems" by (subst base62_loop.simps) simp
  next
    case True
    have "alphabet ! (n mod 62) \<in> set alphabet"
      by (rule nth_mem) (simp add: length_alphabet)
    then have "set (s @ [alphabet ! (n mod length alphabet)]) \<subseteq> set alphabet"
      using "1.prems" by (simp add: length_alphabet)
    from "1.IH"[OF True this] show ?thesis
      using True by (subst base62_loop.simps) simp
  qed
qed

lemma sort_key_pairs:
  "map snd (sort_key fst (map (\<lambda>s. (k s, s)) xs)) = sort_key k xs"
proof (induction xs)
  case Nil
  then show ?case by simp
next
  case (Cons x xs)
  have ins: "map snd (insort_key fst (k x, x) ys) = insort_key k x (map snd ys)"
    if "\<forall>p \<in> set ys. fst p = k (snd p)" for ys
    using that by (induction ys) auto
  have inv: "\<forall>p \<in> set (sort_key fst (map (\<lambda>s. (k s, s)) xs)). fst p = k (snd p)"
    by auto
  show ?case using Cons ins[OF inv] by simp
qed

lemma map_err_at_ids:
  "list_all has_at_id xs \<Longrightarrow> map_err (\<lambda>s. py_str_item s ''@id'') xs = Inr (map at_id_of xs)"
  by (induction xs) (auto simp: has_at_id_def at_id_of_def ebind_def split: sum.splits)

lemma sorted_by_atId_sort_key:
  assumes "list_all has_at_id xs"
  shows "sorted_by_atId xs = Inr (sort_key at_id_of xs)"
proof -
  have z: "zip (map at_id_of xs) xs = map (\<lambda>s. (at_id_of s, s)) xs"
    by (induction xs) simp_all
  show ?thesis
    unfolding sorted_by_atId_def map_err_at_ids[OF assms] ebind_def
    by (simp only: sum.case z sort_key_pairs)
qed

section \<open>Properties of the identifier pass\<close>

lemma sub_id_in_JStr: "sub_id_in t r v = JStr s \<longleftrightarrow> v = JStr s"
  by (cases v) auto

lemma leaves_sub_id:
  "leaves b (if \<not> b \<and> v = JStr t then JStr r else sub_id_in t r v)
     = map (\<lambda>s. if s = t then r else s) (leaves b v)"
proof (induction v arbitrary: b)
  case (JArr xs)
  have "\<And>x. x \<in> set xs \<Longrightarrow>
          leaves False (if x = JStr t then JStr r else sub_id_in t r x)
            = map (\<lambda>s. if s = t then r else s) (leaves False x)"
    using JArr[of _ False] by simp
  then show ?case
    by (simp add: map_concat comp_def cong: map_cong)
next
  case (JObj kvs)
  have "\<And>k x. (k, x) \<in> set kvs \<Longrightarrow>
          leaves (k = ''@id'') (if k \<noteq> ''@id'' \<and> x = JStr t then JStr r else sub_id_in t r x)
            = map (\<lambda>s. if s = t then r else s) (leaves (k = ''@id'') x)"
    using JObj[of "(k, x)" x "k = ''@id''" for k x] by force
  then show ?case
    by (simp add: map_concat comp_def case_prod_beta cong: map_cong)
qed auto

lemma collect_ids_sub_id:
  "collect_ids (if \<not> b \<and> v = JStr t then JStr r else sub_id_in t r v)
     = map (sub_id_in t r) (collect_ids v)"
proof (induction v arbitrary: b)
  case (JArr xs)
  have "\<And>x. x \<in> set xs \<Longrightarrow>
          collect_ids (if x = JStr t then JStr r else sub_id_in t r x)
            = map (sub_id_in t r) (collect_ids x)"
    using JArr[of _ False] by simp
  then show ?case
    by (simp add: map_concat comp_def cong: map_cong)
next
  case (JObj kvs)
  have "\<And>k x. (k, x) \<in> set kvs \<Longrightarrow>
          collect_ids (if k \<noteq> ''@id'' \<and> x = JStr t then JStr r else sub_id_in t r x)
            = map (sub_id_in t r) (collect_ids x)"
    using JObj[of "(k, x)" x "k = ''@id''" for k x] by force
  then show ?case
    by (simp add: map_concat comp_def case_prod_beta if_distrib[where f = "map (sub_id_in t r)"]
        cong: map_cong if_cong)
qed auto

lemma is_atId_sub_id: "is_atId (sub_id_in t r lib) s = is_atId lib s"
proof -
  have "JStr s \<in> sub_id_in t r ` set (collect_ids lib) \<longleftrightarrow> JStr s \<in> set (collect_ids lib)"
  proof
    assume "JStr s \<in> sub_id_in t r ` set (collect_ids lib)"
    then obtain x where x: "x \<in> set (collect_ids lib)" "sub_id_in t r x = JStr s" by auto
    then show "JStr s \<in> set (collect_ids lib)" by (simp add: sub_id_in_JStr)
  next
    assume a: "JStr s \<in> set (collect_ids lib)"
    have "sub_id_in t r (JStr s) = JStr s" by simp
    then show "JStr s \<in> sub_id_in t r ` set (collect_ids lib)"
      using a by (metis imageI)
  qed
  then show ?thesis
    using collect_ids_sub_id[of True lib t r] by (simp add: is_atId_def)
qed

lemma references_sub_id:
  "references (sub_id_in t r lib) = map (\<lambda>s. if s = t then r else s) (references lib)"
  using leaves_sub_id[of True lib t r] by (simp add: references_def)

lemma map_of_split:
  "map_of kvs k = Some v \<Longrightarrow> \<exists>pre post. kvs = pre @ (k, v) # post \<and> k \<notin> fst ` set pre"
proof (induction kvs)
  case Nil
  then show ?case by simp
next
  case (Cons a kvs)
  show ?case
  proof (cases "fst a = k")
    case True
    then have "a = (k, v)" using Cons.prems by (cases a) auto
    then have "a # kvs = [] @ (k, v) # kvs \<and> k \<notin> fst ` set []" by simp
    then show ?thesis by blast
  next
    case False
    then have "map_of kvs k = Some v" using Cons.prems by (cases a) auto
    from Cons.IH[OF this] obtain pre post where "kvs = pre @ (k, v) # post" "k \<notin> fst ` set pre"
      by blast
    then have "a # kvs = (a # pre) @ (k, v) # post \<and> k \<notin> fst ` set (a # pre)"
      using False by auto
    then show ?thesis by blast
  qed
qed

lemma update_split:
  "k \<notin> fst ` set pre \<Longrightarrow> AList.update k w (pre @ (k, v) # post) = pre @ (k, w) # post"
  by (induction pre) auto

lemma map_entry_split:
  "k \<notin> fst ` set pre \<Longrightarrow> AList.map_entry k f (pre @ (k, v) # post) = pre @ (k, f v) # post"
  by (induction pre) auto

lemma set_atId_effect:
  assumes "map_of kvs ''@id'' = Some (JStr old)"
  shows "leaves b (set_atId new (JObj kvs)) = leaves b (JObj kvs)"
    and "JStr new \<in> set (collect_ids (set_atId new (JObj kvs)))"
    and "v \<in> set (collect_ids (JObj kvs)) \<Longrightarrow> v \<noteq> JStr old
           \<Longrightarrow> v \<in> set (collect_ids (set_atId new (JObj kvs)))"
proof -
  from map_of_split[OF assms] obtain pre post where
    s: "kvs = pre @ (''@id'', JStr old) # post" "''@id'' \<notin> fst ` set pre" by blast
  have u: "set_atId new (JObj (pre @ (''@id'', JStr old) # post))
             = JObj (pre @ (''@id'', JStr new) # post)"
    by (simp add: set_atId_def py_set_item_def update_split[OF s(2)])
  show "leaves b (set_atId new (JObj kvs)) = leaves b (JObj kvs)"
    unfolding s(1) u by simp
  show "JStr new \<in> set (collect_ids (set_atId new (JObj kvs)))"
    unfolding s(1) u by simp
  show "v \<in> set (collect_ids (JObj kvs)) \<Longrightarrow> v \<noteq> JStr old
           \<Longrightarrow> v \<in> set (collect_ids (set_atId new (JObj kvs)))"
    unfolding s(1) u by auto
qed

lemma upd_at_atId:
  assumes "get_at p lib = Some (JObj kvs)" "map_of kvs ''@id'' = Some (JStr old)"
    "Key ''@id'' \<notin> set p"
  shows "leaves b (upd_at p (set_atId new) lib) = leaves b lib
       \<and> JStr new \<in> set (collect_ids (upd_at p (set_atId new) lib))
       \<and> (\<forall>v \<in> set (collect_ids lib). v \<noteq> JStr old
             \<longrightarrow> v \<in> set (collect_ids (upd_at p (set_atId new) lib)))"
  using assms
proof (induction p arbitrary: lib b)
  case Nil
  then have "lib = JObj kvs" by simp
  then show ?case using set_atId_effect[OF Nil.prems(2)] by simp
next
  case (Cons s p)
  show ?case
  proof (cases s)
    case (Key k)
    with Cons.prems obtain lkvs v where l: "lib = JObj lkvs" "map_of lkvs k = Some v"
        "get_at p v = Some (JObj kvs)" and k: "k \<noteq> ''@id''"
      by (auto split: json.splits option.splits)
    from map_of_split[OF l(2)] obtain pre post where
      sp: "lkvs = pre @ (k, v) # post" "k \<notin> fst ` set pre" by blast
    have u: "upd_at (s # p) (set_atId new) lib = JObj (pre @ (k, upd_at p (set_atId new) v) # post)"
      by (simp add: Key l(1) sp(1) map_entry_split[OF sp(2)])
    have "Key ''@id'' \<notin> set p" using Cons.prems(3) by simp
    note ih = Cons.IH[OF l(3) Cons.prems(2) this]
    let ?g = "\<lambda>(k, v). (if k = ''@id'' then [v] else []) @ collect_ids v"
    let ?h = "\<lambda>(k, v). leaves (k = ''@id'') v"
    have c: "collect_ids lib = concat (map ?g pre) @ collect_ids v @ concat (map ?g post)"
      using k by (simp add: l(1) sp(1))
    have c1: "collect_ids (JObj (pre @ (k, upd_at p (set_atId new) v) # post))
                = concat (map ?g pre) @ collect_ids (upd_at p (set_atId new) v) @ concat (map ?g post)"
      using k by simp
    have lv: "leaves b lib = concat (map ?h pre) @ leaves False v @ concat (map ?h post)"
      using k by (simp add: l(1) sp(1))
    have lv1: "leaves b (JObj (pre @ (k, upd_at p (set_atId new) v) # post))
                = concat (map ?h pre) @ leaves False (upd_at p (set_atId new) v) @ concat (map ?h post)"
      using k by simp
    show ?thesis
      unfolding u c c1 lv lv1 using ih[of False] by (simp only: set_append Un_iff) blast
  next
    case (Idx i)
    with Cons.prems obtain xs where l: "lib = JArr xs" "i < length xs"
        "get_at p (xs ! i) = Some (JObj kvs)"
      by (auto split: json.splits if_splits)
    have xs: "xs = take i xs @ xs ! i # drop (Suc i) xs"
      using l(2) by (simp add: id_take_nth_drop)
    have u: "upd_at (s # p) (set_atId new) lib
               = JArr (take i xs @ upd_at p (set_atId new) (xs ! i) # drop (Suc i) xs)"
      using l(2) by (simp add: Idx l(1) upd_conv_take_nth_drop)
    have "Key ''@id'' \<notin> set p" using Cons.prems(3) by simp
    note ih = Cons.IH[OF l(3) Cons.prems(2) this]
    have c: "collect_ids lib = concat (map collect_ids (take i xs)) @ collect_ids (xs ! i)
                                @ concat (map collect_ids (drop (Suc i) xs))"
      by (subst l(1), subst xs) simp
    have lv: "leaves b lib = concat (map (leaves False) (take i xs)) @ leaves False (xs ! i)
                                @ concat (map (leaves False) (drop (Suc i) xs))"
      by (subst l(1), subst xs) simp
    have c1: "collect_ids (JArr (take i xs @ upd_at p (set_atId new) (xs ! i) # drop (Suc i) xs))
               = concat (map collect_ids (take i xs)) @ collect_ids (upd_at p (set_atId new) (xs ! i))
                                @ concat (map collect_ids (drop (Suc i) xs))"
      by simp
    have lv1: "leaves b (JArr (take i xs @ upd_at p (set_atId new) (xs ! i) # drop (Suc i) xs))
               = concat (map (leaves False) (take i xs)) @ leaves False (upd_at p (set_atId new) (xs ! i))
                                @ concat (map (leaves False) (drop (Suc i) xs))"
      by simp
    show ?thesis
      unfolding u c c1 lv lv1 using ih[of False] by (simp only: set_append Un_iff) blast
  qed
qed

lemma set_atId_eta: "(\<lambda>x. py_set_item x ''@id'' (JStr n)) = set_atId n"
  by (simp add: set_atId_def fun_eq_iff)

lemma py_str_item_Inr:
  "py_str_item x k = Inr s \<Longrightarrow> \<exists>kvs. x = JObj kvs \<and> map_of kvs k = Some (JStr s)"
  by (auto simp: py_str_item_def py_item_def ebind_def split: json.splits option.splits)

lemma sub_id_Inr: "sub_id obj t r = Inr obj' \<Longrightarrow> obj' = sub_id_in t r obj"
  by (auto simp: sub_id_def split: json.splits)

lemma fix_instance_Inr:
  assumes "fix_instance uuid4 use ke p (lib, c, d) = Inr (lib2, c2, d2)"
  shows "\<exists>kvs old name.
           get_at p lib = Some (JObj kvs) \<and> map_of kvs ''@id'' = Some (JStr old)
           \<and> element_name ke (JObj kvs) = Inr name
           \<and> lib2 = sub_id_in old (if use then uuid4 d else canonical_atId ke c name)
                      (upd_at p (set_atId (if use then uuid4 d else canonical_atId ke c name)) lib)
           \<and> c2 = Suc c \<and> d2 = (if use then Suc d else d)"
proof -
  from assms obtain x where x: "get_at p lib = Some x"
    by (auto simp: fix_instance_def split: option.splits)
  from assms x obtain name old where
    n: "element_name ke x = Inr name" and o: "py_str_item x ''@id'' = Inr old"
    by (auto simp: fix_instance_def ebind_def split: sum.splits)
  from py_str_item_Inr[OF o] obtain kvs where k: "x = JObj kvs" "map_of kvs ''@id'' = Some (JStr old)"
    by blast
  let ?new = "if use then uuid4 d else canonical_atId ke c name"
  from assms x n o have
    s: "sub_id (upd_at p (set_atId ?new) lib) old ?new = Inr lib2" and "c2 = Suc c"
      "d2 = (if use then Suc d else d)"
    by (auto simp: fix_instance_def ebind_def Let_def set_atId_eta split: sum.splits if_splits)
  then show ?thesis using x n k sub_id_Inr[OF s] by blast
qed

lemma fix_instance_resolved:
  assumes "fix_instance uuid4 use ke p (lib, c, d) = Inr (lib2, c2, d2)" "Key ''@id'' \<notin> set p"
  shows "resolved_preserved lib lib2"
proof -
  from fix_instance_Inr[OF assms(1)] obtain kvs old name where
    g: "get_at p lib = Some (JObj kvs)" "map_of kvs ''@id'' = Some (JStr old)"
    and l2: "lib2 = sub_id_in old (if use then uuid4 d else canonical_atId ke c name)
                      (upd_at p (set_atId (if use then uuid4 d else canonical_atId ke c name)) lib)"
    by blast
  define new where "new = (if use then uuid4 d else canonical_atId ke c name)"
  define lib1 where "lib1 = upd_at p (set_atId new) lib"
  have l2': "lib2 = sub_id_in old new lib1" using l2 by (simp add: new_def lib1_def)
  note u = upd_at_atId[OF g assms(2), of _ new, folded lib1_def]
  have refs: "references lib2 = map (\<lambda>s. if s = old then new else s) (references lib)"
    using u[of True] by (simp add: l2' references_sub_id) (simp add: references_def)
  have new: "is_atId lib2 new"
    using u[of True] by (simp add: l2' is_atId_sub_id) (simp add: is_atId_def)
  have keep: "is_atId lib s \<Longrightarrow> s \<noteq> old \<Longrightarrow> is_atId lib2 s" for s
    using u[of True] by (simp add: l2' is_atId_sub_id) (auto simp: is_atId_def)
  show ?thesis
    unfolding resolved_preserved_def refs list_all2_map2
    by (rule list_all2_refl) (use new keep in auto)
qed

lemma resolved_preserved_refl: "resolved_preserved lib lib"
  unfolding resolved_preserved_def by (rule list_all2_refl) simp

lemma resolved_preserved_trans:
  "resolved_preserved a b \<Longrightarrow> resolved_preserved b c \<Longrightarrow> resolved_preserved a c"
  unfolding resolved_preserved_def
  by (rule list_all2_trans[where ?P1.0 = "\<lambda>s s'. is_atId a s \<longrightarrow> is_atId b s'"
        and ?P2.0 = "\<lambda>s s'. is_atId b s \<longrightarrow> is_atId c s'"]) auto

lemma fold_fix_instance_resolved:
  assumes "fold_err (fix_instance uuid4 use ke) ps st = Inr st'"
    "\<forall>p \<in> set ps. Key ''@id'' \<notin> set p"
  shows "resolved_preserved (fst st) (fst st')"
  using assms
proof (induction ps arbitrary: st)
  case Nil
  then show ?case by (simp add: resolved_preserved_refl)
next
  case (Cons p ps)
  from Cons.prems(1) obtain st1 where
    s: "fix_instance uuid4 use ke p st = Inr st1" "fold_err (fix_instance uuid4 use ke) ps st1 = Inr st'"
    by (auto simp: ebind_def split: sum.splits)
  obtain lib c d where st: "st = (lib, c, d)" by (cases st)
  obtain lib1 c1 d1 where st1: "st1 = (lib1, c1, d1)" by (cases st1)
  have "resolved_preserved lib lib1"
    using fix_instance_resolved[OF s(1)[unfolded st st1]] Cons.prems(2) by simp
  moreover have "resolved_preserved lib1 (fst st')"
    using Cons.IH[OF s(2)] Cons.prems(2) by (simp add: st1)
  ultimately show ?case by (simp add: st resolved_preserved_trans)
qed

lemma map_err_Inr:
  "map_err f xs = Inr ys \<Longrightarrow> list_all2 (\<lambda>x y. f x = Inr y) xs ys"
proof (induction xs arbitrary: ys)
  case Nil
  then show ?case by simp
next
  case (Cons x xs)
  then show ?case by (auto simp: ebind_def split: sum.splits)
qed

lemma element_paths_cases:
  "p \<in> set (element_paths [Key k] v) \<Longrightarrow> p = [Key k] \<or> (\<exists>i. p = [Key k, Idx i])"
  by (auto simp: element_paths_def split: json.splits)

lemma element_paths_no_atId:
  "k \<noteq> ''@id'' \<Longrightarrow> \<forall>p \<in> set (element_paths [Key k] v). Key ''@id'' \<notin> set p"
  using element_paths_cases[of _ k v] by fastforce

lemma participants_of_cases:
  "participants_of p event = Inr qs \<Longrightarrow> q \<in> set qs \<Longrightarrow> \<exists>i. q = p @ [Key ''participants'', Idx i]"
  by (auto simp: participants_of_def split: json.splits option.splits list.splits)

lemma participant_paths_cases:
  assumes "participant_paths lib = Inr ps" "q \<in> set ps"
  shows "\<exists>p i. (p = [Key ''events''] \<or> (\<exists>e. p = [Key ''events'', Idx e]))
           \<and> q = p @ [Key ''participants'', Idx i]"
proof -
  from assms(1) obtain evs pss where
    m: "map_err (\<lambda>p. case get_at p lib of None \<Rightarrow> Inl IndexError
                                | Some event \<Rightarrow> participants_of p event)
              (element_paths [Key ''events''] evs) = Inr pss" and ps: "ps = concat pss"
    by (auto simp: participant_paths_def ebind_def split: sum.splits)
  from assms(2) ps obtain qs where qs: "qs \<in> set pss" "q \<in> set qs" by auto
  from qs(1) obtain i where i: "i < length pss" "pss ! i = qs"
    by (auto simp: in_set_conv_nth)
  from map_err_Inr[OF m] have
    len: "length (element_paths [Key ''events''] evs) = length pss" and
    nth: "\<And>i. i < length pss \<Longrightarrow>
            (case get_at (element_paths [Key ''events''] evs ! i) lib of None \<Rightarrow> Inl IndexError
             | Some event \<Rightarrow> participants_of (element_paths [Key ''events''] evs ! i) event)
            = Inr (pss ! i)"
    by (auto simp: list_all2_conv_all_nth)
  define p where "p = element_paths [Key ''events''] evs ! i"
  have p: "p \<in> set (element_paths [Key ''events''] evs)"
       "(case get_at p lib of None \<Rightarrow> Inl IndexError | Some event \<Rightarrow> participants_of p event) = Inr qs"
    unfolding p_def using nth[OF i(1)] i len by simp_all
  then obtain event where "participants_of p event = Inr qs"
    by (auto split: option.splits)
  from participants_of_cases[OF this qs(2)] element_paths_cases[OF p(1)]
  show ?thesis by blast
qed

lemma participant_paths_no_atId:
  "participant_paths lib = Inr ps \<Longrightarrow> \<forall>q \<in> set ps. Key ''@id'' \<notin> set q"
  using participant_paths_cases[of lib ps] by fastforce

lemma fix_atIds_phases:
  assumes "fix_atIds uuid4 use lib d = Inr (lib', d')"
  obtains ents st1 evs st2 rels st3 insts st4 ps5 st5 where
    "fold_err (fix_instance uuid4 use ''Entities'') (element_paths [Key ''entities''] ents) (lib, 0, d) = Inr st1"
    "py_item lib ''entities'' = Inr ents"
    "fold_err (fix_instance uuid4 use ''Events'') (element_paths [Key ''events''] evs) st1 = Inr st2"
    "py_item (fst st1) ''events'' = Inr evs"
    "fold_err (fix_instance uuid4 use ''Relations'') (element_paths [Key ''relations''] rels) st2 = Inr st3"
    "py_get (fst st2) ''relations'' (JArr []) = Inr rels"
    "fold_err (fix_instance uuid4 use ''Instances'') (element_paths [Key ''instances''] insts) st3 = Inr st4"
    "py_get (fst st3) ''instances'' (JArr []) = Inr insts"
    "participant_paths (fst st4) = Inr ps5"
    "fold_err (fix_instance uuid4 use ''Participants'') ps5 st4 = Inr st5"
    "lib' = fst st5" "d' = snd (snd st5)"
  using assms
  unfolding fix_atIds_def fix_for_ke_type_def ebind_def
  by (auto split: sum.splits)

lemma fix_atIds_resolved:
  assumes "fix_atIds uuid4 use lib d = Inr (lib', d')"
  shows "resolved_preserved lib lib'"
proof -
  from assms obtain ents st1 evs st2 rels st3 insts st4 ps5 st5 where
    f: "fold_err (fix_instance uuid4 use ''Entities'') (element_paths [Key ''entities''] ents) (lib, 0, d) = Inr st1"
    "fold_err (fix_instance uuid4 use ''Events'') (element_paths [Key ''events''] evs) st1 = Inr st2"
    "fold_err (fix_instance uuid4 use ''Relations'') (element_paths [Key ''relations''] rels) st2 = Inr st3"
    "fold_err (fix_instance uuid4 use ''Instances'') (element_paths [Key ''instances''] insts) st3 = Inr st4"
    "participant_paths (fst st4) = Inr ps5"
    "fold_err (fix_instance uuid4 use ''Participants'') ps5 st4 = Inr st5"
    "lib' = fst st5"
    by (rule fix_atIds_phases)
  have 1: "resolved_preserved lib (fst st1)"
    using fold_fix_instance_resolved[OF f(1)] element_paths_no_atId[of "''entities''"] by simp
  have 2: "resolved_preserved (fst st1) (fst st2)"
    using fold_fix_instance_resolved[OF f(2)] element_paths_no_atId[of "''events''"] by simp
  have 3: "resolved_preserved (fst st2) (fst st3)"
    using fold_fix_instance_resolved[OF f(3)] element_paths_no_atId[of "''relations''"] by simp
  have 4: "resolved_preserved (fst st3) (fst st4)"
    using fold_fix_instance_resolved[OF f(4)] element_paths_no_atId[of "''instances''"] by simp
  have 5: "resolved_preserved (fst st4) (fst st5)"
    using fold_fix_instance_resolved[OF f(6)] participant_paths_no_atId[OF f(5)] by simp
  show ?thesis
    unfolding f(7)
    by (rule resolved_preserved_trans[OF resolved_preserved_trans[OF resolved_preserved_trans[OF
          resolved_preserved_trans[OF 1 2] 3] 4] 5])
qed

lemma digit_char_value:
  "d < 10 \<Longrightarrow> decimal_digit_value (digit_char d) = d"
  unfolding digit_char_def decimal_digit_value_def by (rule index_of_nth) simp_all

lemma decimal_digit_value_0: "decimal_digit_value CHR ''0'' = 0"
  by (simp add: decimal_digit_value_def)

lemma digit_char_in: "d < 10 \<Longrightarrow> digit_char d \<in> set ''0123456789''"
  unfolding digit_char_def by (rule nth_mem) simp

lemma dec_value_append:
  "dec_value (s @ [c]) = 10 * dec_value s + decimal_digit_value c"
  by (simp add: dec_value_def)

lemma dec_value_decimal: "dec_value (decimal n) = n"
proof (induction n rule: decimal.induct)
  case (1 n)
  show ?case
  proof (cases "n < 10")
    case True
    then show ?thesis
      using dec_value_append[of "[]" "digit_char n"]
      by (subst decimal.simps) (simp add: digit_char_value dec_value_def)
  next
    case False
    then have "dec_value (decimal n) = 10 * dec_value (decimal (n div 10)) + n mod 10"
      by (subst decimal.simps) (simp add: dec_value_append digit_char_value)
    then show ?thesis using "1.IH"[OF False] by simp
  qed
qed

lemma decimal_digits: "set (decimal n) \<subseteq> set ''0123456789''"
proof (induction n rule: decimal.induct)
  case (1 n)
  show ?case
  proof (cases "n < 10")
    case True
    then show ?thesis using digit_char_in[of n] by (subst decimal.simps) simp
  next
    case False
    have "n mod 10 < 10" by simp
    then show ?thesis
      using "1.IH"[OF False] False digit_char_in[of "n mod 10"]
      by (subst decimal.simps) simp
  qed
qed

lemma dec_value_zeros: "dec_value (replicate k CHR ''0'' @ s) = dec_value s"
proof (induction k)
  case 0
  then show ?case by simp
next
  case (Suc k)
  then show ?case by (simp add: dec_value_def decimal_digit_value_0)
qed

lemma dec_value_format: "dec_value (format_05d n) = n"
  by (simp add: format_05d_def dec_value_zeros dec_value_decimal)

lemma format_no_slash: "CHR ''/'' \<notin> set (format_05d n)"
  using decimal_digits[of n] by (auto simp: format_05d_def)

lemma counter_of_canonical:
  assumes "CHR ''/'' \<notin> set ke"
  shows "counter_of (canonical_atId ke c name) = c"
proof -
  have 1: "dropWhile (\<lambda>c. c \<noteq> CHR ''/'') (ke @ ''/'' @ rest) = ''/'' @ rest" for rest
  proof -
    have "\<forall>x \<in> set ke. x \<noteq> CHR ''/''" using assms by auto
    then show ?thesis by (simp add: dropWhile_append3)
  qed
  have 2: "takeWhile (\<lambda>c. c \<noteq> CHR ''/'') (format_05d c @ ''/'' @ name) = format_05d c"
  proof -
    have "\<forall>x \<in> set (format_05d c). x \<noteq> CHR ''/''" using format_no_slash[of c] by auto
    then show ?thesis by (simp add: takeWhile_tail)
  qed
  show ?thesis
    using 1[of "format_05d c @ ''/'' @ name"] 2
    by (simp add: counter_of_def canonical_atId_def dec_value_format)
qed

lemma ke_types_no_slash: "ke \<in> ke_types \<Longrightarrow> CHR ''/'' \<notin> set ke"
  by (auto simp: ke_types_def)

lemma canonical_atId_inj:
  "ke \<in> ke_types \<Longrightarrow> ke' \<in> ke_types \<Longrightarrow>
   canonical_atId ke c name = canonical_atId ke' c' name' \<Longrightarrow> c = c'"
  using counter_of_canonical[OF ke_types_no_slash, of ke c name]
    counter_of_canonical[OF ke_types_no_slash, of ke' c' name']
  by simp

lemma map_of_map_keyed:
  "map_of (map (\<lambda>(k, v). (k, f k v)) kvs) k = map_option (f k) (map_of kvs k)"
  by (induction kvs) auto

lemma shape_sub_id_in: "shape (sub_id_in t r j) = shape j"
proof (induction j)
  case (JArr xs)
  then show ?case by (simp cong: map_cong)
next
  case (JObj kvs)
  have "\<And>k x. (k, x) \<in> set kvs \<Longrightarrow> shape (sub_id_in t r x) = shape x"
    using JObj[of "(k, x)" x for k x] by force
  then show ?case by (auto simp: case_prod_beta)
qed auto

lemma shape_JStr: "shape v = JStr s \<longleftrightarrow> (\<exists>s'. v = JStr s') \<and> s = []"
  by (cases v) auto

lemma shape_upd_at:
  assumes "get_at p lib = Some (JObj kvs)" "map_of kvs ''@id'' = Some (JStr old)"
  shows "shape (upd_at p (set_atId new) lib) = shape lib"
  using assms
proof (induction p arbitrary: lib)
  case Nil
  from map_of_split[OF Nil.prems(2)] obtain pre post where
    s: "kvs = pre @ (''@id'', JStr old) # post" "''@id'' \<notin> fst ` set pre" by blast
  have "set_atId new (JObj (pre @ (''@id'', JStr old) # post))
             = JObj (pre @ (''@id'', JStr new) # post)"
    by (simp add: set_atId_def py_set_item_def update_split[OF s(2)])
  then show ?case using Nil.prems(1) by (simp add: s(1))
next
  case (Cons st p)
  show ?case
  proof (cases st)
    case (Key k)
    with Cons.prems obtain lkvs v where l: "lib = JObj lkvs" "map_of lkvs k = Some v"
        "get_at p v = Some (JObj kvs)"
      by (auto split: json.splits option.splits)
    from map_of_split[OF l(2)] obtain pre post where
      sp: "lkvs = pre @ (k, v) # post" "k \<notin> fst ` set pre" by blast
    show ?thesis
      using Cons.IH[OF l(3) Cons.prems(2)]
      by (simp add: Key l(1) sp(1) map_entry_split[OF sp(2)])
  next
    case (Idx i)
    with Cons.prems obtain xs where l: "lib = JArr xs" "i < length xs"
        "get_at p (xs ! i) = Some (JObj kvs)"
      by (auto split: json.splits if_splits)
    show ?thesis
      using Cons.IH[OF l(3) Cons.prems(2)] l(2)
      by (simp add: Idx l(1) map_update list_update_same_conv)
  qed
qed

lemma get_at_sub_id_in:
  "q \<noteq> [] \<Longrightarrow>
   get_at q (sub_id_in t r j)
     = map_option (\<lambda>v. if last q \<noteq> Key ''@id'' \<and> v = JStr t then JStr r else sub_id_in t r v)
         (get_at q j)"
proof (induction q arbitrary: j)
  case Nil
  then show ?case by simp
next
  case (Cons s q)
  show ?case
  proof (cases "q = []")
    case True
    show ?thesis
    proof (cases s)
      case (Key k)
      then show ?thesis using True
        by (cases j) (auto simp: map_of_map_keyed split: option.splits)
    next
      case (Idx i)
      then show ?thesis using True by (cases j) auto
    qed
  next
    case False
    have leaf: "get_at q (JStr x) = None" for x
      using False by (cases q) (auto split: step.splits)
    show ?thesis
    proof (cases s)
      case (Key k)
      then show ?thesis using False Cons.IH[OF False] leaf
        by (cases j) (auto simp: map_of_map_keyed split: option.splits)
    next
      case (Idx i)
      then show ?thesis using False Cons.IH[OF False] leaf
        by (cases j) auto
    qed
  qed
qed

lemma get_atId_sub_id_in:
  "get_at (p @ [Key ''@id'']) (sub_id_in t r j) = Some (JStr s)
     \<longleftrightarrow> get_at (p @ [Key ''@id'']) j = Some (JStr s)"
  using get_at_sub_id_in[of "p @ [Key ''@id'']" t r j]
  by (cases "get_at (p @ [Key ''@id'']) j") (auto simp: sub_id_in_JStr)

lemma get_at_leaf: "q \<noteq> [] \<Longrightarrow> get_at q (JStr x) = None"
  by (cases q) (auto split: step.splits)

lemma get_atId_upd_at_same:
  assumes "get_at p lib = Some (JObj kvs)"
  shows "get_at (p @ [Key ''@id'']) (upd_at p (set_atId new) lib) = Some (JStr new)"
  using assms
proof (induction p arbitrary: lib)
  case Nil
  then show ?case by (simp add: set_atId_def py_set_item_def update_conv')
next
  case (Cons s p)
  show ?case
  proof (cases s)
    case (Key k)
    with Cons.prems obtain lkvs v where l: "lib = JObj lkvs" "map_of lkvs k = Some v"
        "get_at p v = Some (JObj kvs)"
      by (auto split: json.splits option.splits)
    show ?thesis using Cons.IH[OF l(3)] l(2)
      by (simp add: Key l(1) map_of_map_entry)
  next
    case (Idx i)
    with Cons.prems obtain xs where l: "lib = JArr xs" "i < length xs"
        "get_at p (xs ! i) = Some (JObj kvs)"
      by (auto split: json.splits if_splits)
    show ?thesis using Cons.IH[OF l(3)] l(2) by (simp add: Idx l(1))
  qed
qed

lemma get_atId_upd_at_other:
  assumes "get_at p lib = Some (JObj kvs)" "map_of kvs ''@id'' = Some (JStr old)"
    "Key ''@id'' \<notin> set p" "p' \<noteq> p"
  shows "get_at (p' @ [Key ''@id'']) (upd_at p (set_atId new) lib) = get_at (p' @ [Key ''@id'']) lib"
  using assms
proof (induction p arbitrary: lib p')
  case Nil
  then have lib: "lib = JObj kvs" by simp
  from Nil.prems(4) obtain s rest where p': "p' = s # rest" by (cases p') auto
  show ?case
  proof (cases s)
    case (Key k)
    show ?thesis
    proof (cases "k = ''@id''")
      case True
      then show ?thesis
        using Nil.prems(2) get_at_leaf[of "rest @ [Key ''@id'']"]
        by (simp add: p' Key lib set_atId_def py_set_item_def update_conv')
    next
      case False
      then show ?thesis
        by (simp add: p' Key lib set_atId_def py_set_item_def update_conv')
    qed
  next
    case (Idx i)
    then show ?thesis by (simp add: p' lib set_atId_def py_set_item_def)
  qed
next
  case (Cons s p)
  have noid: "Key ''@id'' \<notin> set p" "s \<noteq> Key ''@id''" using Cons.prems(3) by auto
  show ?case
  proof (cases s)
    case (Key k)
    with Cons.prems obtain lkvs v where l: "lib = JObj lkvs" "map_of lkvs k = Some v"
        "get_at p v = Some (JObj kvs)"
      by (auto split: json.splits option.splits)
    show ?thesis
    proof (cases p')
      case Nil
      then show ?thesis using noid(2) by (simp add: Key l(1) map_of_map_entry)
    next
      case (Cons s' rest)
      show ?thesis
      proof (cases "s' = s")
        case True
        then have "rest \<noteq> p" using Cons.prems(4) Cons by simp
        from Cons.IH[OF l(3) Cons.prems(2) noid(1) this]
        show ?thesis using True l(2) by (simp add: Cons Key l(1) map_of_map_entry)
      next
        case False
        then show ?thesis
          by (cases s') (auto simp: Cons Key l(1) map_of_map_entry)
      qed
    qed
  next
    case (Idx i)
    with Cons.prems obtain xs where l: "lib = JArr xs" "i < length xs"
        "get_at p (xs ! i) = Some (JObj kvs)"
      by (auto split: json.splits if_splits)
    show ?thesis
    proof (cases p')
      case Nil
      then show ?thesis by (simp add: Idx l(1))
    next
      case (Cons s' rest)
      show ?thesis
      proof (cases "s' = s")
        case True
        then have "rest \<noteq> p" using Cons.prems(4) Cons by simp
        from Cons.IH[OF l(3) Cons.prems(2) noid(1) this]
        show ?thesis using True l(2) by (simp add: Cons Idx l(1))
      next
        case False
        then show ?thesis
          by (cases s') (auto simp: Cons Idx l(1))
      qed
    qed
  qed
qed

lemma get_at_shape: "get_at p (shape j) = map_option shape (get_at p j)"
proof (induction p arbitrary: j)
  case Nil
  then show ?case by simp
next
  case (Cons s p)
  show ?case
  proof (cases s)
    case (Key k)
    then show ?thesis using Cons.IH
      by (cases j) (auto simp: map_of_map_keyed split: option.splits)
  next
    case (Idx i)
    then show ?thesis using Cons.IH by (cases j) auto
  qed
qed

lemma element_paths_shape: "element_paths p (shape v) = element_paths p v"
  by (cases v) (auto simp: element_paths_def)

lemma places_under_shape: "places_under k (shape lib) = places_under k lib"
  by (cases lib)
    (auto simp: places_under_def map_of_map_keyed element_paths_shape split: option.splits)

lemma listed_participants_shape: "listed_participants p (shape e) = listed_participants p e"
proof (cases e)
  case (JObj kvs)
  show ?thesis
  proof (cases "map_of kvs ''participants''")
    case None
    then show ?thesis by (simp add: JObj listed_participants_def map_of_map_keyed)
  next
    case (Some v)
    then show ?thesis
      by (cases v) (simp_all add: JObj listed_participants_def map_of_map_keyed)
  qed
qed (simp_all add: listed_participants_def)

lemma participant_places_shape: "participant_places (shape lib) = participant_places lib"
proof -
  have "(case get_at p (shape lib) of None \<Rightarrow> [] | Some event \<Rightarrow> listed_participants p event)
      = (case get_at p lib of None \<Rightarrow> [] | Some event \<Rightarrow> listed_participants p event)" for p
    by (cases "get_at p lib") (simp_all add: get_at_shape listed_participants_shape)
  then show ?thesis by (simp add: participant_places_def places_under_shape)
qed

lemma renumbered_places_shape:
  "shape a = shape b \<Longrightarrow> renumbered_places a = renumbered_places b"
  using places_under_shape[of _ a] places_under_shape[of _ b]
    participant_places_shape[of a] participant_places_shape[of b]
  by (simp add: renumbered_places_def)

lemma places_under_item: "py_item lib k = Inr v \<Longrightarrow> places_under k lib = element_paths [Key k] v"
  by (auto simp: py_item_def places_under_def split: json.splits option.splits)

lemma places_under_get:
  "py_get lib k (JArr []) = Inr v \<Longrightarrow> places_under k lib = element_paths [Key k] v"
  by (auto simp: py_get_def places_under_def element_paths_def split: json.splits option.splits)

lemma participants_of_listed:
  "participants_of p e = Inr qs \<Longrightarrow> listed_participants p e = qs"
  by (auto simp: participants_of_def listed_participants_def
      split: json.splits option.splits list.splits)

lemma map_err_map:
  "map_err f xs = Inr ys \<Longrightarrow> (\<And>x y. x \<in> set xs \<Longrightarrow> f x = Inr y \<Longrightarrow> g x = y) \<Longrightarrow> map g xs = ys"
proof (induction xs arbitrary: ys)
  case Nil
  then show ?case by simp
next
  case (Cons x xs)
  then show ?case by (auto simp: ebind_def split: sum.splits)
qed

lemma participant_paths_places:
  assumes "participant_paths lib = Inr ps"
  shows "participant_places lib = ps"
proof -
  from assms obtain evs pss where
    e: "py_item lib ''events'' = Inr evs" and
    m: "map_err (\<lambda>p. case get_at p lib of None \<Rightarrow> Inl IndexError
                                | Some event \<Rightarrow> participants_of p event)
              (element_paths [Key ''events''] evs) = Inr pss" and ps: "ps = concat pss"
    by (auto simp: participant_paths_def ebind_def split: sum.splits)
  have "map (\<lambda>p. case get_at p lib of None \<Rightarrow> [] | Some event \<Rightarrow> listed_participants p event)
          (element_paths [Key ''events''] evs) = pss"
    by (rule map_err_map[OF m]) (auto split: option.splits dest: participants_of_listed)
  then show ?thesis by (simp add: participant_places_def places_under_item[OF e] ps)
qed

lemma fix_instance_assigns:
  assumes "fix_instance uuid4 False ke p (lib, c, d) = Inr (lib2, c2, d2)" "Key ''@id'' \<notin> set p"
  shows "(\<exists>name. get_at (p @ [Key ''@id'']) lib2 = Some (JStr (canonical_atId ke c name)))
       \<and> (\<forall>p' s. p' \<noteq> p \<longrightarrow> get_at (p' @ [Key ''@id'']) lib = Some (JStr s)
               \<longrightarrow> get_at (p' @ [Key ''@id'']) lib2 = Some (JStr s))
       \<and> shape lib2 = shape lib \<and> c2 = Suc c \<and> d2 = d"
proof -
  from fix_instance_Inr[OF assms(1)] obtain kvs old name where
    g: "get_at p lib = Some (JObj kvs)" "map_of kvs ''@id'' = Some (JStr old)"
    and l2: "lib2 = sub_id_in old (canonical_atId ke c name)
                      (upd_at p (set_atId (canonical_atId ke c name)) lib)"
    and c: "c2 = Suc c" "d2 = d"
    by auto
  have 1: "get_at (p @ [Key ''@id'']) lib2 = Some (JStr (canonical_atId ke c name))"
    unfolding l2 get_atId_sub_id_in by (rule get_atId_upd_at_same[OF g(1)])
  have 2: "get_at (p' @ [Key ''@id'']) lib2 = Some (JStr s)"
    if "p' \<noteq> p" "get_at (p' @ [Key ''@id'']) lib = Some (JStr s)" for p' s
    unfolding l2 get_atId_sub_id_in get_atId_upd_at_other[OF g assms(2) that(1)]
    by (rule that(2))
  have 3: "shape lib2 = shape lib"
    unfolding l2 shape_sub_id_in by (rule shape_upd_at[OF g])
  show ?thesis using 1 2 3 c by blast
qed

lemma assigned_snoc:
  assumes a: "assigned lib ps kes"
    and s: "fix_instance uuid4 False ke q (lib, length ps, d) = Inr (lib2, c2, d2)"
    and q: "Key ''@id'' \<notin> set q" "q \<notin> set ps"
  shows "assigned lib2 (ps @ [q]) (kes @ [ke]) \<and> c2 = length (ps @ [q]) \<and> d2 = d
         \<and> shape lib2 = shape lib"
proof -
  note f = fix_instance_assigns[OF s q(1)]
  from a have len: "length kes = length ps" by (simp add: assigned_def)
  have "\<exists>name. get_at ((ps @ [q]) ! k @ [Key ''@id'']) lib2
            = Some (JStr (canonical_atId ((kes @ [ke]) ! k) k name))"
    if k: "k < length (ps @ [q])" for k
  proof (cases "k < length ps")
    case True
    then have ne: "ps ! k \<noteq> q" using q(2) by (metis nth_mem)
    from a True obtain name where
      "get_at (ps ! k @ [Key ''@id'']) lib = Some (JStr (canonical_atId (kes ! k) k name))"
      by (auto simp: assigned_def)
    then have "get_at (ps ! k @ [Key ''@id'']) lib2 = Some (JStr (canonical_atId (kes ! k) k name))"
      using f ne by blast
    then show ?thesis using True len by (auto simp: nth_append)
  next
    case False
    then have "k = length ps" using k by simp
    then show ?thesis using f len by (auto simp: nth_append)
  qed
  then show ?thesis using f len by (simp add: assigned_def)
qed

lemma assigned_fold:
  assumes "fold_err (fix_instance uuid4 False ke) qs (lib, length ps, d) = Inr st'"
    and "assigned lib ps kes"
    and "distinct (ps @ qs)"
    and "\<forall>q \<in> set qs. Key ''@id'' \<notin> set q"
  shows "assigned (fst st') (ps @ qs) (kes @ replicate (length qs) ke)
         \<and> st' = (fst st', length (ps @ qs), d) \<and> shape (fst st') = shape lib"
  using assms
proof (induction qs arbitrary: lib ps kes)
  case Nil
  then show ?case by auto
next
  case (Cons q qs)
  from Cons.prems(1) obtain st1 where
    s: "fix_instance uuid4 False ke q (lib, length ps, d) = Inr st1"
       "fold_err (fix_instance uuid4 False ke) qs st1 = Inr st'"
    by (auto simp: ebind_def split: sum.splits)
  obtain lib1 c1 d1 where st1: "st1 = (lib1, c1, d1)" by (cases st1)
  have q: "Key ''@id'' \<notin> set q" "q \<notin> set ps" using Cons.prems(3,4) by auto
  note a = assigned_snoc[OF Cons.prems(2) s(1)[unfolded st1] q]
  have s2: "fold_err (fix_instance uuid4 False ke) qs (lib1, length (ps @ [q]), d) = Inr st'"
    using s(2) a by (simp add: st1)
  have d: "distinct ((ps @ [q]) @ qs)" using Cons.prems(3) by simp
  have n: "\<forall>q \<in> set qs. Key ''@id'' \<notin> set q" using Cons.prems(4) by simp
  from Cons.IH[OF s2 _ d n, of "kes @ [ke]"] a
  show ?case by (simp add: replicate_app_Cons_same)
qed

lemma distinct_element_paths: "distinct (element_paths p v)"
  by (cases v) (auto simp: element_paths_def distinct_map inj_on_def)

lemma places_under_cases:
  "q \<in> set (places_under k lib) \<Longrightarrow> q = [Key k] \<or> (\<exists>i. q = [Key k, Idx i])"
  using element_paths_cases[of q k]
  by (auto simp: places_under_def split: json.splits option.splits)

lemma distinct_places_under: "distinct (places_under k lib)"
  by (auto simp: places_under_def distinct_element_paths split: json.splits option.splits)

lemma listed_participants_cases:
  "q \<in> set (listed_participants p e) \<Longrightarrow> \<exists>i. q = p @ [Key ''participants'', Idx i]"
  by (auto simp: listed_participants_def split: json.splits option.splits)

lemma distinct_listed_participants: "distinct (listed_participants p e)"
  by (auto simp: listed_participants_def distinct_map inj_on_def split: json.splits option.splits)

lemma distinct_concat_blocks:
  assumes "distinct ps" "\<And>p. distinct (F p)"
    "\<And>p q. q \<in> set (F p) \<Longrightarrow> \<exists>i. q = p @ [Key ''participants'', Idx i]"
  shows "distinct (concat (map F ps))"
  using assms(1)
proof (induction ps)
  case Nil
  then show ?case by simp
next
  case (Cons p ps)
  have "set (F p) \<inter> set (concat (map F ps)) = {}"
  proof (rule ccontr)
    assume "set (F p) \<inter> set (concat (map F ps)) \<noteq> {}"
    then obtain q p' where q: "q \<in> set (F p)" "p' \<in> set ps" "q \<in> set (F p')" by auto
    from assms(3)[OF q(1)] assms(3)[OF q(3)] have "p = p'" by auto
    then show False using Cons.prems q(2) by simp
  qed
  then show ?case using Cons assms(2) by simp
qed

lemma distinct_participant_places: "distinct (participant_places lib)"
  unfolding participant_places_def
proof (rule distinct_concat_blocks[OF distinct_places_under])
  show "distinct (case get_at p lib of None \<Rightarrow> [] | Some event \<Rightarrow> listed_participants p event)" for p
    by (cases "get_at p lib") (simp_all add: distinct_listed_participants)
  show "\<exists>i. q = p @ [Key ''participants'', Idx i]"
    if "q \<in> set (case get_at p lib of None \<Rightarrow> [] | Some event \<Rightarrow> listed_participants p event)"
    for p q
    using that listed_participants_cases[of q p] by (cases "get_at p lib") auto
qed

lemma participant_places_cases:
  "q \<in> set (participant_places lib) \<Longrightarrow> \<exists>p i. q = p @ [Key ''participants'', Idx i]"
  using listed_participants_cases
  by (fastforce simp: participant_places_def split: option.splits)

lemma distinct_renumbered_places: "distinct (renumbered_places lib)"
proof -
  have a: "set (places_under k lib) \<inter> set (places_under k' lib) = {}" if "k \<noteq> k'" for k k'
    using places_under_cases[of _ k lib] places_under_cases[of _ k' lib] that by fastforce
  have b: "set (places_under k lib) \<inter> set (participant_places lib) = {}"
    if k: "k \<noteq> ''participants''" for k
  proof (rule ccontr)
    assume "set (places_under k lib) \<inter> set (participant_places lib) \<noteq> {}"
    then obtain q where q: "q \<in> set (places_under k lib)" "q \<in> set (participant_places lib)"
      by auto
    from participant_places_cases[OF q(2)] obtain p i where
      p: "q = p @ [Key ''participants'', Idx i]" by blast
    from places_under_cases[OF q(1)] show False
    proof
      assume "q = [Key k]"
      then show False using p by simp
    next
      assume "\<exists>j. q = [Key k, Idx j]"
      then obtain j where e: "p @ [Key ''participants'', Idx i] = [Key k, Idx j]"
        using p by auto
      then have "length (p @ [Key ''participants'', Idx i]) = length [Key k, Idx j]"
        by (rule arg_cong)
      then have "p = []" by simp
      then show False using e k by simp
    qed
  qed
  show ?thesis
    unfolding renumbered_places_def
    using a[of "''entities''" "''events''"] a[of "''entities''" "''relations''"]
      a[of "''entities''" "''instances''"] a[of "''events''" "''relations''"]
      a[of "''events''" "''instances''"] a[of "''relations''" "''instances''"]
      b[of "''entities''"] b[of "''events''"] b[of "''relations''"] b[of "''instances''"]
    by (simp add: distinct_places_under distinct_participant_places Int_Un_distrib)
qed

lemma fix_collision:
  "fix_atIds no_uuid False (lib_collision ''cmu:e1'' ''cmu:ev'' ''cmu:p1'' ''cmu:e1'') 0
     = Inr (lib_collision ''cmu:Entities/00000/a'' ''cmu:Events/00001/go_now''
              ''cmu:Participants/00002/a'' ''cmu:Entities/00000/a'', 0)"
  by code_simp

lemma fix_dangling:
  "fix_atIds no_uuid False (lib_dangling ''cmu:ev'' ''cmu:p1'') 0
     = Inr (lib_dangling ''cmu:Events/00000/go'' ''cmu:Participants/00001/cmu:nowhere'', 0)"
  by code_simp

lemma places_under_shape_eq:
  "shape a = shape b \<Longrightarrow> places_under k a = places_under k b"
  using places_under_shape[of k a] places_under_shape[of k b] by simp

lemma fix_atIds_assigned:
  assumes "fix_atIds uuid4 False lib d = Inr (lib', d')"
  shows "\<exists>kes. assigned lib' (renumbered_places lib') kes \<and> set kes \<subseteq> ke_types"
proof -
  from assms obtain ents st1 evs st2 rels st3 insts st4 ps5 st5 where
    f1: "fold_err (fix_instance uuid4 False ''Entities'') (element_paths [Key ''entities''] ents) (lib, 0, d) = Inr st1"
    and i1: "py_item lib ''entities'' = Inr ents"
    and f2: "fold_err (fix_instance uuid4 False ''Events'') (element_paths [Key ''events''] evs) st1 = Inr st2"
    and i2: "py_item (fst st1) ''events'' = Inr evs"
    and f3: "fold_err (fix_instance uuid4 False ''Relations'') (element_paths [Key ''relations''] rels) st2 = Inr st3"
    and i3: "py_get (fst st2) ''relations'' (JArr []) = Inr rels"
    and f4: "fold_err (fix_instance uuid4 False ''Instances'') (element_paths [Key ''instances''] insts) st3 = Inr st4"
    and i4: "py_get (fst st3) ''instances'' (JArr []) = Inr insts"
    and i5: "participant_paths (fst st4) = Inr ps5"
    and f5: "fold_err (fix_instance uuid4 False ''Participants'') ps5 st4 = Inr st5"
    and l: "lib' = fst st5"
    by (rule fix_atIds_phases)
  define ps1 where "ps1 = element_paths [Key ''entities''] ents"
  define ps2 where "ps2 = element_paths [Key ''events''] evs"
  define ps3 where "ps3 = element_paths [Key ''relations''] rels"
  define ps4 where "ps4 = element_paths [Key ''instances''] insts"
  have p1: "places_under ''entities'' lib = ps1" unfolding ps1_def by (rule places_under_item[OF i1])
  have p2: "places_under ''events'' (fst st1) = ps2" unfolding ps2_def by (rule places_under_item[OF i2])
  have p3: "places_under ''relations'' (fst st2) = ps3" unfolding ps3_def by (rule places_under_get[OF i3])
  have p4: "places_under ''instances'' (fst st3) = ps4" unfolding ps4_def by (rule places_under_get[OF i4])
  have p5: "participant_places (fst st4) = ps5" by (rule participant_paths_places[OF i5])
  have n1: "\<forall>q \<in> set ps1. Key ''@id'' \<notin> set q" unfolding ps1_def by (rule element_paths_no_atId) simp
  have n2: "\<forall>q \<in> set ps2. Key ''@id'' \<notin> set q" unfolding ps2_def by (rule element_paths_no_atId) simp
  have n3: "\<forall>q \<in> set ps3. Key ''@id'' \<notin> set q" unfolding ps3_def by (rule element_paths_no_atId) simp
  have n4: "\<forall>q \<in> set ps4. Key ''@id'' \<notin> set q" unfolding ps4_def by (rule element_paths_no_atId) simp
  have n5: "\<forall>q \<in> set ps5. Key ''@id'' \<notin> set q" by (rule participant_paths_no_atId[OF i5])
  have a0: "assigned lib [] []" by (simp add: assigned_def)
  have d1: "distinct ([] @ ps1)" unfolding ps1_def by (simp add: distinct_element_paths)
  have f1': "fold_err (fix_instance uuid4 False ''Entities'') ps1 (lib, length ([]::step list list), d) = Inr st1"
    using f1 by (simp add: ps1_def)
  note r1 = assigned_fold[OF f1' a0 d1 n1]
  have s1: "shape (fst st1) = shape lib" using r1 by simp
  have all1: "renumbered_places (fst st1) = ps1 @ ps2 @ places_under ''relations'' (fst st1)
                @ places_under ''instances'' (fst st1) @ participant_places (fst st1)"
    using places_under_shape_eq[OF s1, of "''entities''"] p1 p2
    by (simp add: renumbered_places_def)
  have d2: "distinct (([] @ ps1) @ ps2)"
    using distinct_renumbered_places[of "fst st1"] unfolding all1 by auto
  have f2': "fold_err (fix_instance uuid4 False ''Events'') ps2 (fst st1, length ([] @ ps1), d) = Inr st2"
    using f2 r1 by (simp add: ps2_def)
  note r2 = assigned_fold[OF f2' r1[THEN conjunct1] d2 n2]
  have s2: "shape (fst st2) = shape lib" using r2 s1 by simp
  have s21: "shape (fst st2) = shape (fst st1)" using s1 s2 by simp
  have q2: "places_under ''entities'' (fst st2) = ps1" "places_under ''events'' (fst st2) = ps2"
    using p1 p2 places_under_shape_eq[OF s2] places_under_shape_eq[OF s21] by simp_all
  have d3: "distinct ((([] @ ps1) @ ps2) @ ps3)"
    using distinct_renumbered_places[of "fst st2"] unfolding renumbered_places_def q2 p3 by auto
  have f3': "fold_err (fix_instance uuid4 False ''Relations'') ps3
               (fst st2, length (([] @ ps1) @ ps2), d) = Inr st3"
    using f3 r2 by (simp add: ps3_def)
  note r3 = assigned_fold[OF f3' r2[THEN conjunct1] d3 n3]
  have s3: "shape (fst st3) = shape lib" using r3 s2 by simp
  have s32: "shape (fst st3) = shape (fst st2)" using s2 s3 by simp
  have q3: "places_under ''entities'' (fst st3) = ps1" "places_under ''events'' (fst st3) = ps2"
      "places_under ''relations'' (fst st3) = ps3"
    using q2 p3 places_under_shape_eq[OF s32] by simp_all
  have d4: "distinct (((([] @ ps1) @ ps2) @ ps3) @ ps4)"
    using distinct_renumbered_places[of "fst st3"] unfolding renumbered_places_def q3 p4 by auto
  have f4': "fold_err (fix_instance uuid4 False ''Instances'') ps4
               (fst st3, length ((([] @ ps1) @ ps2) @ ps3), d) = Inr st4"
    using f4 r3 by (simp add: ps4_def)
  note r4 = assigned_fold[OF f4' r3[THEN conjunct1] d4 n4]
  have s4: "shape (fst st4) = shape lib" using r4 s3 by simp
  have s43: "shape (fst st4) = shape (fst st3)" using s3 s4 by simp
  have q4: "places_under ''entities'' (fst st4) = ps1" "places_under ''events'' (fst st4) = ps2"
      "places_under ''relations'' (fst st4) = ps3" "places_under ''instances'' (fst st4) = ps4"
    using q3 p4 places_under_shape_eq[OF s43] by simp_all
  have all4: "renumbered_places (fst st4) = (((([] @ ps1) @ ps2) @ ps3) @ ps4) @ ps5"
    by (simp add: renumbered_places_def q4 p5)
  have d5: "distinct ((((([] @ ps1) @ ps2) @ ps3) @ ps4) @ ps5)"
    using distinct_renumbered_places[of "fst st4"] unfolding all4 .
  have f5': "fold_err (fix_instance uuid4 False ''Participants'') ps5
               (fst st4, length (((([] @ ps1) @ ps2) @ ps3) @ ps4), d) = Inr st5"
    using f5 r4 by simp
  note r5 = assigned_fold[OF f5' r4[THEN conjunct1] d5 n5]
  have s5: "shape lib' = shape (fst st4)" using r5 l by simp
  have all5: "renumbered_places lib' = (((([] @ ps1) @ ps2) @ ps3) @ ps4) @ ps5"
    using renumbered_places_shape[OF s5] all4 by simp
  let ?kes = "(((([] @ replicate (length ps1) ''Entities'') @ replicate (length ps2) ''Events'')
                 @ replicate (length ps3) ''Relations'') @ replicate (length ps4) ''Instances'')
                 @ replicate (length ps5) ''Participants''"
  have "assigned lib' (renumbered_places lib') ?kes"
    using r5[THEN conjunct1] all5 l by simp
  moreover have "set ?kes \<subseteq> ke_types" by (auto simp: ke_types_def)
  ultimately show ?thesis by blast
qed

text \<open>
  Claim C9, as stated, fails on both counts. The pass renumbers the elements of five
  collections only, so the identifier of the document itself can coincide with one it
  assigns; and a reference that resolved to nothing before the pass resolves to nothing after
  it.
\<close>

theorem renumbering_counterexample:
  "fix_atIds no_uuid False (lib_collision ''cmu:e1'' ''cmu:ev'' ''cmu:p1'' ''cmu:e1'') 0
     = Inr (lib_collision ''cmu:Entities/00000/a'' ''cmu:Events/00001/go_now''
              ''cmu:Participants/00002/a'' ''cmu:Entities/00000/a'', 0)
   \<and> distinct (collect_ids (lib_collision ''cmu:e1'' ''cmu:ev'' ''cmu:p1'' ''cmu:e1''))
   \<and> \<not> distinct (collect_ids (lib_collision ''cmu:Entities/00000/a'' ''cmu:Events/00001/go_now''
              ''cmu:Participants/00002/a'' ''cmu:Entities/00000/a''))
   \<and> fix_atIds no_uuid False (lib_dangling ''cmu:ev'' ''cmu:p1'') 0
     = Inr (lib_dangling ''cmu:Events/00000/go'' ''cmu:Participants/00001/cmu:nowhere'', 0)
   \<and> ''cmu:nowhere'' \<in> set (references (lib_dangling ''cmu:Events/00000/go''
                                       ''cmu:Participants/00001/cmu:nowhere''))
   \<and> \<not> is_atId (lib_dangling ''cmu:Events/00000/go'' ''cmu:Participants/00001/cmu:nowhere'')
           ''cmu:nowhere''"
  using fix_collision fix_dangling
  by (simp add: lib_collision_def lib_dangling_def references_def is_atId_def)

text \<open>
  Claim C9, amended. When the canonical pass returns, the elements it renumbers (those under
  \<^verbatim>\<open>entities\<close>, \<^verbatim>\<open>events\<close>, \<^verbatim>\<open>relations\<close> and \<^verbatim>\<open>instances\<close>, then the participants listed by the
  events) carry the identifiers \<^verbatim>\<open>cmu:Kind/counter/name\<close> with the counters 0, 1, 2, ... in
  that order, so no two of them are equal; and every string outside an \<^verbatim>\<open>@id\<close> field that
  was an identifier of the document before the pass is one after it.
\<close>

theorem renumbering_properties:
  assumes "fix_atIds uuid4 False lib drawn = Inr (lib', drawn')"
  shows "distinct (map (\<lambda>p. get_at (p @ [Key ''@id'']) lib') (renumbered_places lib'))
       \<and> (\<forall>k < length (renumbered_places lib'). \<exists>ke \<in> ke_types. \<exists>name.
             get_at (renumbered_places lib' ! k @ [Key ''@id'']) lib'
               = Some (JStr (canonical_atId ke k name)))
       \<and> resolved_preserved lib lib'"
proof -
  from fix_atIds_assigned[OF assms] obtain kes where
    a: "assigned lib' (renumbered_places lib') kes" and k: "set kes \<subseteq> ke_types" by blast
  let ?ps = "renumbered_places lib'"
  have len: "length kes = length ?ps" using a by (simp add: assigned_def)
  have ids: "\<exists>ke \<in> ke_types. \<exists>name.
             get_at (?ps ! i @ [Key ''@id'']) lib' = Some (JStr (canonical_atId ke i name))"
    if "i < length ?ps" for i
  proof -
    have "kes ! i \<in> ke_types" using k len that by (metis nth_mem subsetD)
    moreover have "\<exists>name. get_at (?ps ! i @ [Key ''@id'']) lib'
                      = Some (JStr (canonical_atId (kes ! i) i name))"
      using a that by (simp add: assigned_def)
    ultimately show ?thesis by blast
  qed
  have "distinct (map (\<lambda>p. get_at (p @ [Key ''@id'']) lib') ?ps)"
    unfolding distinct_conv_nth
  proof (intro allI impI)
    fix i j
    assume i: "i < length (map (\<lambda>p. get_at (p @ [Key ''@id'']) lib') ?ps)"
      and j: "j < length (map (\<lambda>p. get_at (p @ [Key ''@id'']) lib') ?ps)" and ne: "i \<noteq> j"
    from ids[of i] i obtain ke name where
      1: "ke \<in> ke_types" "get_at (?ps ! i @ [Key ''@id'']) lib' = Some (JStr (canonical_atId ke i name))"
      by auto
    from ids[of j] j obtain ke' name' where
      2: "ke' \<in> ke_types" "get_at (?ps ! j @ [Key ''@id'']) lib' = Some (JStr (canonical_atId ke' j name'))"
      by auto
    have "canonical_atId ke i name \<noteq> canonical_atId ke' j name'"
      using canonical_atId_inj[OF 1(1) 2(1)] ne by blast
    then show "map (\<lambda>p. get_at (p @ [Key ''@id'']) lib') ?ps ! i
                \<noteq> map (\<lambda>p. get_at (p @ [Key ''@id'']) lib') ?ps ! j"
      using i j 1(2) 2(2) by simp
  qed
  then show ?thesis using ids fix_atIds_resolved[OF assms] by blast
qed

lemma places_collision:
  "renumbered_places (lib_collision ''cmu:Entities/00000/a'' ''cmu:Events/00001/go_now''
              ''cmu:Participants/00002/a'' ''cmu:Entities/00000/a'')
     = [[Key ''entities'', Idx 0], [Key ''events'', Idx 0],
        [Key ''events'', Idx 0, Key ''participants'', Idx 0]]"
  by code_simp

lemma atIds_collision:
  "map (\<lambda>p. get_at (p @ [Key ''@id''])
               (lib_collision ''cmu:Entities/00000/a'' ''cmu:Events/00001/go_now''
                  ''cmu:Participants/00002/a'' ''cmu:Entities/00000/a''))
     [[Key ''entities'', Idx 0], [Key ''events'', Idx 0],
      [Key ''events'', Idx 0, Key ''participants'', Idx 0]]
   = [Some (JStr ''cmu:Entities/00000/a''), Some (JStr ''cmu:Events/00001/go_now''),
      Some (JStr ''cmu:Participants/00002/a'')]"
  by code_simp

theorem renumbering_properties_witness:
  "fix_atIds no_uuid False (lib_collision ''cmu:e1'' ''cmu:ev'' ''cmu:p1'' ''cmu:e1'') 0
     = Inr (lib_collision ''cmu:Entities/00000/a'' ''cmu:Events/00001/go_now''
              ''cmu:Participants/00002/a'' ''cmu:Entities/00000/a'', 0)
   \<and> distinct [Some (JStr ''cmu:Entities/00000/a''), Some (JStr ''cmu:Events/00001/go_now''),
                Some (JStr ''cmu:Participants/00002/a'')]
   \<and> resolved_preserved (lib_collision ''cmu:e1'' ''cmu:ev'' ''cmu:p1'' ''cmu:e1'')
         (lib_collision ''cmu:Entities/00000/a'' ''cmu:Events/00001/go_now''
              ''cmu:Participants/00002/a'' ''cmu:Entities/00000/a'')"
  using renumbering_properties[OF fix_collision] fix_collision
  unfolding places_collision atIds_collision
  by blast

section \<open>Properties of the subschema inlining\<close>

text \<open>With the outer event at index 0 the pruning loop never gets past a participant that it
  keeps: \<open>j\<close> advances by 0.\<close>

lemma prune_loop_no_result:
  assumes a: "prune_loop i unused_args ps j = Some y"
  shows "\<not> (i = 0 \<and> j < length ps \<and> in_unused unused_args (ps ! j) = Inr False)"
proof (rule prune_loop.raw_induct
         [where P = "\<lambda>i unused_args ps j y.
                       \<not> (i = 0 \<and> j < length ps \<and> in_unused unused_args (ps ! j) = Inr False)",
          OF _ a])
  fix f :: "nat \<Rightarrow> string set \<Rightarrow> json list \<Rightarrow> nat \<Rightarrow> (error + json list) option"
  fix i unused_args ps j y
  assume IH: "\<And>i' unused_args' ps' j' y'. f i' unused_args' ps' j' = Some y' \<Longrightarrow>
                \<not> (i' = 0 \<and> j' < length ps' \<and> in_unused unused_args' (ps' ! j') = Inr False)"
  assume body: "(if j < length ps
                 then (case in_unused unused_args (ps ! j) of
                         Inl e \<Rightarrow> Some (Inl e)
                       | Inr b \<Rightarrow> if b then f i unused_args (del_at j ps) j
                                  else f i unused_args ps (j + i))
                 else Some (Inr ps)) = Some y"
  show "\<not> (i = 0 \<and> j < length ps \<and> in_unused unused_args (ps ! j) = Inr False)"
  proof
    assume h: "i = 0 \<and> j < length ps \<and> in_unused unused_args (ps ! j) = Inr False"
    with body have "f 0 unused_args ps j = Some y" by simp
    from IH[OF this] h show False by simp
  qed
qed

lemma prune_loop_diverges:
  assumes "j < length ps" and "in_unused unused_args (ps ! j) = Inr False"
  shows "prune_loop 0 unused_args ps j = None"
proof (cases "prune_loop 0 unused_args ps j")
  case None
  then show ?thesis .
next
  case (Some y)
  from prune_loop_no_result[OF this] assms show ?thesis by simp
qed

text \<open>With the outer event at index 1 the loop is the filter that the pruning is meant to
  be: the participants whose entity is an unused argument go, the others stay in order.\<close>

lemma take_del_at: "j < length ps \<Longrightarrow> take j (del_at j ps) = take j ps"
  by (simp add: del_at_def)

lemma drop_del_at: "j < length ps \<Longrightarrow> drop j (del_at j ps) = drop (Suc j) ps"
  by (simp add: del_at_def)

lemma length_del_at: "j < length ps \<Longrightarrow> length (del_at j ps) = length ps - 1"
  by (simp add: del_at_def)

lemma set_del_at: "set (del_at j ps) \<subseteq> set ps"
  unfolding del_at_def using set_take_subset[of j ps] set_drop_subset[of "Suc j" ps] by auto

lemma prune_loop_one_from:
  assumes "\<And>p. p \<in> set ps \<Longrightarrow> in_unused unused_args p = Inr (unused p)"
  shows "prune_loop 1 unused_args ps j
           = Some (Inr (take j ps @ filter (\<lambda>p. \<not> unused p) (drop j ps)))"
  using assms
proof (induction "length ps - j" arbitrary: ps j rule: less_induct)
  case less
  show ?case
  proof (cases "j < length ps")
    case False
    then show ?thesis by (subst prune_loop.simps) simp
  next
    case True
    then have mem: "ps ! j \<in> set ps" by simp
    have u: "in_unused unused_args (ps ! j) = Inr (unused (ps ! j))" by (rule less.prems[OF mem])
    have dr: "drop j ps = ps ! j # drop (Suc j) ps" using True by (simp add: Cons_nth_drop_Suc)
    show ?thesis
    proof (cases "unused (ps ! j)")
      case True
      have sm: "length (del_at j ps) - j < length ps - j"
        using \<open>j < length ps\<close> by (simp add: length_del_at)
      have pr: "\<And>p. p \<in> set (del_at j ps) \<Longrightarrow> in_unused unused_args p = Inr (unused p)"
        using less.prems set_del_at[of j ps] by blast
      have "prune_loop 1 unused_args ps j = prune_loop 1 unused_args (del_at j ps) j"
        using \<open>j < length ps\<close> u True by (subst prune_loop.simps) simp
      also have "\<dots> = Some (Inr (take j (del_at j ps)
                         @ filter (\<lambda>p. \<not> unused p) (drop j (del_at j ps))))"
        by (rule less.hyps[OF sm pr])
      also have "\<dots> = Some (Inr (take j ps @ filter (\<lambda>p. \<not> unused p) (drop j ps)))"
        using \<open>j < length ps\<close> True by (simp add: take_del_at drop_del_at dr)
      finally show ?thesis .
    next
      case False
      have sm: "length ps - (j + 1) < length ps - j" using \<open>j < length ps\<close> by simp
      have "prune_loop 1 unused_args ps j = prune_loop 1 unused_args ps (j + 1)"
        using \<open>j < length ps\<close> u False by (subst prune_loop.simps) simp
      also have "\<dots> = Some (Inr (take (j + 1) ps @ filter (\<lambda>p. \<not> unused p) (drop (j + 1) ps)))"
        by (rule less.hyps[OF sm less.prems])
      also have "\<dots> = Some (Inr (take j ps @ filter (\<lambda>p. \<not> unused p) (drop j ps)))"
        using \<open>j < length ps\<close> False by (simp add: take_Suc_conv_app_nth dr)
      finally show ?thesis .
    qed
  qed
qed

lemma prune_loop_one:
  assumes "\<And>p. p \<in> set ps \<Longrightarrow> in_unused unused_args p = Inr (unused p)"
  shows "prune_loop 1 unused_args ps 0 = Some (Inr (filter (\<lambda>p. \<not> unused p) ps))"
  using prune_loop_one_from[of ps unused_args unused 0, OF assms] by simp

text \<open>The pruning of a subschema does not return when the loop of one of its events does
  not, and one turn of \<^verbatim>\<open>inject_subschemas\<close> does not return when the pruning does not.\<close>

lemma prune_subschema_diverges:
  assumes "py_item subschema ''events'' = Inr evs"
      and "ensure_list evs = e # es"
      and "py_item e ''participants'' = Inr v"
      and "ensure_list v = p # ps"
      and "in_unused unused_args p = Inr False"
  shows "prune_subschema 0 unused_args subschema = None"
proof -
  have "prune_loop 0 unused_args (p # ps) 0 = None"
    by (rule prune_loop_diverges) (simp_all add: assms)
  then have "prune_event 0 unused_args e = None"
    by (simp add: prune_event_def assms)
  then show ?thesis
    by (simp add: prune_subschema_def assms)
qed

lemma inject_loop_diverges:
  assumes "py_item lib ''events'' = Inr evs"
      and "i < length (ensure_list evs)"
      and "is_placeholder (ensure_list evs ! i) = Inr True"
      and "fetch_subschema valid tbl (ensure_list evs ! i) = Inr (Some subschema)"
      and "prepare_subschema uuid4 (ensure_list evs ! i) subschema drawn
             = Inr ((subschema1, unused_args), drawn')"
      and "prune_subschema i unused_args subschema1 = None"
  shows "inject_loop uuid4 valid tbl lib i drawn = None"
  by (subst inject_loop.simps) (simp add: inject_iteration_def assms Let_def)

text \<open>The root of a subschema, by the number of its roots.\<close>

lemma subschema_root_outcomes:
  assumes "all_roots subschema = Inr roots"
  shows "subschema_root subschema
           = (if length roots > 1 then Inl ValueError
              else if roots = [] then Inl IndexError
              else Inr (hd roots))"
  by (cases roots) (simp_all add: subschema_root_def assms ebind_def)

text \<open>
  Claim C3 does not hold of the code. The loop that prunes a participant list advances by
  \<open>i\<close>, the index of the outer event in the library, where it should advance by one. With
  the outer event first in the library (\<open>i = 0\<close>) the pruning of a subschema with a
  participant to keep does not return; with the outer event third (\<open>i = 2\<close>) the loop
  steps over the participant that names the unused argument \<^verbatim>\<open>cmu:e/place\<close> and leaves it
  in; only with the outer event second (\<open>i = 1\<close>) is that participant removed.
\<close>

theorem pruning_advances_by_outer_index:
  "prune_subschema 0 {''cmu:e/place''} (inner_schema two_participants [] []) = None
   \<and> prune_subschema 2 {''cmu:e/place''} (inner_schema two_participants [] [])
       = Some (Inr (inner_schema two_participants [] []))
   \<and> prune_subschema 1 {''cmu:e/place''} (inner_schema two_participants [] [])
       = Some (Inr (inner_schema [participant ''cmu:p/a1'' ''cmu:e/tool'' ''instrument''] [] []))"
proof -
  have 0: "prune_subschema 0 {''cmu:e/place''} (inner_schema two_participants [] []) = None"
    apply (rule prune_subschema_diverges)
        apply (simp add: inner_schema_def py_item_def)
       apply (simp add: ensure_list_def)
      apply (simp add: py_item_def)
     apply (simp add: ensure_list_def two_participants_def)
    apply (simp add: participant_def in_unused_def py_item_def ebind_def)
    done
  have 2: "prune_subschema 2 {''cmu:e/place''} (inner_schema two_participants [] [])
       = Some (Inr (inner_schema two_participants [] []))"
    by code_simp
  have 1: "prune_subschema 1 {''cmu:e/place''} (inner_schema two_participants [] [])
       = Some (Inr (inner_schema [participant ''cmu:p/a1'' ''cmu:e/tool'' ''instrument''] [] []))"
    by code_simp
  show ?thesis using 0 2 1 by simp
qed

text \<open>The composition of the outer schema alone, whose only event is the placeholder: the
  library before the inlining, and the steps of the first turn of the loop.\<close>

lemma fetch_outer:
  "fetch_schemas accept_all [''cmu:Schema/outer''] (example_table events inner)
   = Inr [outer_schema events]"
  by (simp add: fetch_schemas_def select_in_def example_table_def schema_row_def loads_sdf_def
      validate_type_def json_loads_def ebind_def accept_all_def outer_schema_def)

lemma sorted_outer: "sorted_by_atId [outer_schema events] = Inr [outer_schema events]"
  by (simp add: sorted_by_atId_def outer_schema_def py_str_item_def py_item_def ebind_def)

lemma digest_outer: "input_digest toy_hash toy_encode [outer_schema events] = ''sk6''"
  by (simp add: input_digest_def outer_schema_def py_str_item_def
      py_item_def toy_hash_def toy_encode_def at_id_of_def digest_to_base62_def bytes_to_int_def
      base62_loop.simps alphabet_def ebind_def)

lemma ebind_Inr: "ebind (Inr x) f = f x"
  by (simp add: ebind_def)

lemma ebind_Inl: "ebind (Inl e) f = Inl e"
  by (simp add: ebind_def)

lemma private_data_example:
  "py_item (example_library events []) ''privateData'' = Inr (JObj [(''inputDigest'', JStr ''sk6'')])"
  "py_set_item (example_library events []) ''privateData''
     (py_set_item (JObj [(''inputDigest'', JStr ''sk6'')]) ''constitutentSchemas''
        (JArr [JStr ''cmu:Schema/outer'']))
   = example_library events constituents"
  by (simp_all add: example_library_def constituents_def py_item_def py_set_item_def)

lemma build_example:
  "build_library seq_uuid toy_hash toy_encode accept_all JNull JNull ''lib'' [''cmu:Schema/outer'']
     (example_table [placeholder_event] inner)
   = Inr (example_library [library_placeholder ''uuid-1'' ''uuid-2''] constituents, 3)"
proof -
  have types: "all_event_types [outer_schema [placeholder_event]] = Inr [JStr ''cmu:Schema/inner'']"
    by code_simp
  have add: "add_schemas seq_uuid [JStr ''cmu:Schema/inner''] [outer_schema [placeholder_event]]
               (py_set_item (create_blank_schema JNull JNull (''lib'' @ ''-'' @ ''sk6'')) ''privateData''
                  (JObj [(''inputDigest'', JStr ''sk6'')]), 0)
             = Inr (example_library [library_placeholder ''uuid-1'' ''uuid-2''] [], 3)"
    by code_simp
  show ?thesis
    unfolding build_library_def
    by (simp only: fetch_outer types sorted_outer digest_outer Let_def add ebind_Inr prod.case
        private_data_example list.map)
qed

lemma build_example_second:
  "build_library seq_uuid toy_hash toy_encode accept_all JNull JNull ''lib'' [''cmu:Schema/outer'']
     (example_table [plain_event, placeholder_event] inner)
   = Inr (example_library [library_plain, library_placeholder ''uuid-2'' ''uuid-3''] constituents, 4)"
proof -
  have types: "all_event_types [outer_schema [plain_event, placeholder_event]]
                 = Inr [JNull, JStr ''cmu:Schema/inner'']"
    by code_simp
  have add: "add_schemas seq_uuid [JNull, JStr ''cmu:Schema/inner'']
               [outer_schema [plain_event, placeholder_event]]
               (py_set_item (create_blank_schema JNull JNull (''lib'' @ ''-'' @ ''sk6'')) ''privateData''
                  (JObj [(''inputDigest'', JStr ''sk6'')]), 0)
             = Inr (example_library [library_plain, library_placeholder ''uuid-2'' ''uuid-3''] [], 4)"
    by code_simp
  show ?thesis
    unfolding build_library_def
    by (simp only: fetch_outer types sorted_outer digest_outer Let_def add ebind_Inr prod.case
        private_data_example list.map)
qed

lemma inject_two_roots_second:
  "inject_subschemas seq_uuid accept_all
     (example_table [plain_event, placeholder_event] (inner_schema two_participants [] []))
     (example_library [library_plain, library_placeholder ''uuid-2'' ''uuid-3''] constituents) 4
   = Some (Inl ValueError)"
  by code_simp

lemma first_turn_example:
  "py_item (example_library [library_placeholder ''uuid-1'' ''uuid-2''] constituents) ''events''
     = Inr (JArr [library_placeholder ''uuid-1'' ''uuid-2''])"
  "0 < length (ensure_list (JArr [library_placeholder ''uuid-1'' ''uuid-2'']))"
  "is_placeholder (ensure_list (JArr [library_placeholder ''uuid-1'' ''uuid-2'']) ! 0) = Inr True"
  "fetch_subschema accept_all
     (example_table [placeholder_event] (inner_schema two_participants [] []))
     (ensure_list (JArr [library_placeholder ''uuid-1'' ''uuid-2'']) ! 0)
   = Inr (Some (inner_schema two_participants [] []))"
  "prepare_subschema seq_uuid (ensure_list (JArr [library_placeholder ''uuid-1'' ''uuid-2'']) ! 0)
     (inner_schema two_participants [] []) 3
   = Inr ((prepared_inner, {''uuid-4''}), 10)"
  by code_simp+

lemma prune_prepared_inner: "prune_subschema 0 {''uuid-4''} prepared_inner = None"
  apply (rule prune_subschema_diverges)
      apply (simp add: prepared_inner_def py_item_def)
     apply (simp add: ensure_list_def)
    apply (simp add: py_item_def)
   apply (simp add: ensure_list_def)
  apply (simp add: participant_def in_unused_def py_item_def ebind_def)
  done

text \<open>
  Claim C5 does not hold of the code. The subschema \<^verbatim>\<open>cmu:Schema/inner\<close> has two root events,
  and the outer schema names it in its first event. The composition does not abort: it
  does not return, because the pruning that comes before the count of the roots does not
  (the defect of claim C3).
\<close>

theorem two_roots_no_abort:
  "package_schemas seq_uuid toy_hash toy_encode accept_all JNull JNull ''lib'' [''cmu:Schema/outer'']
     (example_table [placeholder_event] (inner_schema two_participants [] []))
   = None"
  unfolding package_schemas_def build_example inject_subschemas_def
  using inject_loop_diverges[OF first_turn_example prune_prepared_inner]
  by simp

text \<open>With the placeholder second in the outer schema the pruning returns and the roots are
  counted: two roots raise ValueError, and no root raises IndexError, from
  \<^verbatim>\<open>list(all_roots)[0]\<close>.\<close>

lemma two_roots_second_event:
  "package_schemas seq_uuid toy_hash toy_encode accept_all JNull JNull ''lib'' [''cmu:Schema/outer'']
     (example_table [plain_event, placeholder_event] (inner_schema two_participants [] []))
   = Some (Inl ValueError)"
  unfolding package_schemas_def build_example_second
  by (simp add: inject_two_roots_second)

lemma inject_no_root_second:
  "inject_subschemas seq_uuid accept_all
     (example_table [plain_event, placeholder_event]
        (inner_schema two_participants [child ''cmu:ev/b''] [child ''cmu:ev/a'']))
     (example_library [library_plain, library_placeholder ''uuid-2'' ''uuid-3''] constituents) 4
   = Some (Inl IndexError)"
  by code_simp

lemma no_root_second_event:
  "package_schemas seq_uuid toy_hash toy_encode accept_all JNull JNull ''lib'' [''cmu:Schema/outer'']
     (example_table [plain_event, placeholder_event]
        (inner_schema two_participants [child ''cmu:ev/b''] [child ''cmu:ev/a'']))
   = Some (Inl IndexError)"
  unfolding package_schemas_def build_example_second
  by (simp add: inject_no_root_second)

section \<open>The rename pass against its specification\<close>

lemma update_with_field:
  "AList.update k v kvs
     = (case dropWhile (\<lambda>kv. fst kv \<noteq> k) kvs of
          [] \<Rightarrow> kvs @ [(k, v)]
        | kv # rest \<Rightarrow> takeWhile (\<lambda>kv. fst kv \<noteq> k) kvs @ (k, v) # rest)"
proof (induction kvs)
  case Nil
  show ?case by simp
next
  case (Cons kv kvs)
  note IH = Cons.IH
  show ?case
  proof (cases "fst kv = k")
    case True
    then show ?thesis by (cases kv) simp
  next
    case False
    show ?thesis
    proof (cases "dropWhile (\<lambda>kv. fst kv \<noteq> k) kvs")
      case Nil
      have "AList.update k v kvs = kvs @ [(k, v)]"
        using IH by (simp only: Nil list.case)
      then show ?thesis using False by (cases kv) (simp add: Nil del: dropWhile_eq_Nil_conv)
    next
      case (Cons kv' rest)
      have "AList.update k v kvs = takeWhile (\<lambda>kv. fst kv \<noteq> k) kvs @ (k, v) # rest"
        using IH by (simp only: Cons list.case)
      then show ?thesis using False by (cases kv) (simp add: Cons)
    qed
  qed
qed

lemma py_set_item_with_field: "py_set_item j k v = with_field k v j"
  by (cases j) (simp_all add: py_set_item_def with_field_def update_with_field)

lemma last_segment_after_last_slash: "last_segment s = after_last_slash s"
proof (induction s)
  case Nil
  show ?case by (simp add: last_segment_def)
next
  case (Cons c cs)
  show ?case
  proof (cases "CHR ''/'' \<in> set cs")
    case True
    then have "takeWhile (\<lambda>c. c \<noteq> CHR ''/'') (rev cs @ [c]) = takeWhile (\<lambda>c. c \<noteq> CHR ''/'') (rev cs)"
      by (simp add: takeWhile_append1)
    then show ?thesis using Cons True by (simp add: last_segment_def)
  next
    case False
    then have "takeWhile (\<lambda>c. c \<noteq> CHR ''/'') (rev cs @ [c])
                 = rev cs @ takeWhile (\<lambda>c. c \<noteq> CHR ''/'') [c]"
      by (intro takeWhile_append2) auto
    then show ?thesis using False by (simp add: last_segment_def)
  qed
qed

lemma any_wd_node_spec:
  "list_all is_obj es \<Longrightarrow> any_wd_node old_id es = Inr (list_ex (references_node old_id) es)"
proof (induction es)
  case Nil
  show ?case by simp
next
  case (Cons e es)
  then obtain kvs where e: "e = JObj kvs" by (auto simp: is_obj_def split: json.splits)
  show ?case using Cons
    by (auto simp: e py_get_def ebind_def references_node_def field_def split: option.splits)
qed

lemma refers_to_spec:
  assumes "doc_shape j"
  shows "refers_to old_id j = Inr (document_refers old_id j)"
proof -
  from assms obtain kvs where j: "j = JObj kvs" by (auto simp: doc_shape_def split: json.splits)
  show ?thesis
  proof (cases "map_of kvs ''events''")
    case None
    then show ?thesis
      by (simp add: j refers_to_def py_get_def py_iter_def ebind_def document_refers_def
          events_of_def field_def)
  next
    case (Some v)
    with assms j obtain es where v: "v = JArr es" "list_all is_obj es"
      by (auto simp: doc_shape_def split: json.splits)
    show ?thesis
      using Some v any_wd_node_spec[OF v(2), of old_id]
      by (simp add: j refers_to_def py_get_def py_iter_def ebind_def document_refers_def
          events_of_def field_def)
  qed
qed

lemma repoint_event_spec:
  "is_obj e \<Longrightarrow> repoint_event old_id new_id e = Inr (repointed_event old_id new_id e)"
  by (cases e)
     (auto simp: is_obj_def repoint_event_def repointed_event_def py_get_def ebind_def
        references_node_def field_def py_set_item_with_field last_segment_after_last_slash
        split: option.splits)

lemma map_err_repoint_spec:
  "list_all is_obj es \<Longrightarrow>
   map_err (repoint_event old_id new_id) es = Inr (map (repointed_event old_id new_id) es)"
  by (induction es) (simp_all add: repoint_event_spec ebind_def)

lemma repointed_spec:
  assumes "doc_shape j" "document_refers old_id j"
  shows "repointed old_id new_id j = repointed_document old_id new_id j"
proof -
  from assms obtain kvs where j: "j = JObj kvs" by (auto simp: doc_shape_def split: json.splits)
  from assms(2) j obtain es where es: "map_of kvs ''events'' = Some (JArr es)"
    by (auto simp: document_refers_def events_of_def field_def split: option.splits json.splits)
  with assms(1) j have ob: "list_all is_obj es" by (simp add: doc_shape_def)
  have ev: "events_of j = es" by (simp add: events_of_def field_def j es)
  have "repoint_schema old_id new_id j
          = Inr (py_set_item j ''events'' (JArr (map (repointed_event old_id new_id) es)))"
    by (simp add: repoint_schema_def j py_item_def es ebind_def map_err_repoint_spec[OF ob])
  then have "repointed old_id new_id j
          = py_set_item j ''events'' (JArr (map (repointed_event old_id new_id) es))"
    by (simp add: repointed_def)
  then show ?thesis
    by (simp only: repointed_document_def ev py_set_item_with_field)
qed

lemma referrer_spec:
  assumes "store_ok tbl" "r \<in> set tbl"
  shows "referrer old_id r = referring_row old_id r"
proof (cases "quarantined r = 0")
  case False
  then show ?thesis by (simp add: referrer_def referring_row_def)
next
  case True
  from store_ok_rows[OF assms True] obtain j where j: "data r = Dumps j" "doc_shape j"
    by blast
  show ?thesis using True j refers_to_spec[OF j(2), of old_id]
    by (simp add: referrer_def referring_row_def)
qed

lemma renamed_spec:
  assumes "store_ok tbl"
  shows "renamed now old_id sdf_data new_id client_id tbl
           = rename_result now old_id sdf_data new_id client_id tbl"
  unfolding renamed_def rename_result_def
proof (rule map_cong[OF refl])
  fix r assume r: "r \<in> set tbl"
  note rs = referrer_spec[OF assms r, of old_id]
  have "repointed old_id new_id (the_doc r) = repointed_document old_id new_id (the_doc r)"
    if "referring_row old_id r"
  proof -
    from that rs have "referrer old_id r" by simp
    from referrer_facts[OF assms r this] show ?thesis
      using refers_to_spec[of "the_doc r" old_id] repointed_spec[of "the_doc r" old_id new_id]
      by simp
  qed
  then show "(if atId r = old_id
              then r\<lparr>atId := new_id, lock_ts := Some now, holder_id := Some client_id,
                     data := Dumps sdf_data, quarantined := 0\<rparr>
              else if referrer old_id r
              then r\<lparr>lock_ts := Some now, holder_id := Some client_id,
                     data := Dumps (repointed old_id new_id (the_doc r))\<rparr>
              else r)
           = (if atId r = old_id
              then r\<lparr>atId := new_id, lock_ts := Some now, holder_id := Some client_id,
                     data := Dumps sdf_data, quarantined := 0\<rparr>
              else if referring_row old_id r
              then r\<lparr>lock_ts := Some now, holder_id := Some client_id,
                     data := Dumps (repointed_document old_id new_id (the_doc r))\<rparr>
              else r)"
    using rs by simp
qed

lemma field_with_field:
  "is_obj j \<Longrightarrow> field (with_field k v j) k' = (if k' = k then Some v else field j k')"
  by (cases j)
     (simp_all add: is_obj_def field_def py_set_item_with_field[symmetric] py_set_item_def
        update_conv')

lemma is_obj_with_field: "is_obj (with_field k v j) = is_obj j"
  by (cases j) (simp_all add: is_obj_def py_set_item_with_field[symmetric] py_set_item_def)

lemma repointed_event_not_old:
  assumes "is_obj e" "old_id \<noteq> new_id"
  shows "\<not> references_node old_id (repointed_event old_id new_id e)"
  using assms
  by (simp add: repointed_event_def references_node_def field_with_field is_obj_with_field)

lemma repointed_document_not_referring:
  assumes "doc_shape j" "document_refers old_id j" "old_id \<noteq> new_id"
  shows "\<not> document_refers old_id (repointed_document old_id new_id j)"
proof -
  from assms obtain kvs where j: "j = JObj kvs" by (auto simp: doc_shape_def split: json.splits)
  from assms(2) j obtain es where es: "map_of kvs ''events'' = Some (JArr es)"
    by (auto simp: document_refers_def events_of_def field_def split: option.splits json.splits)
  with assms(1) j have ob: "list_all is_obj es" by (simp add: doc_shape_def)
  have ev: "events_of j = es" by (simp add: events_of_def field_def j es)
  have o: "is_obj j" by (simp add: j is_obj_def)
  have "events_of (repointed_document old_id new_id j) = map (repointed_event old_id new_id) es"
    unfolding repointed_document_def ev
    by (simp add: events_of_def field_with_field[OF o])
  then show ?thesis
    using ob repointed_event_not_old[OF _ assms(3)]
    by (auto simp: document_refers_def list_ex_iff list_all_iff)
qed

text \<open>
  Claim C1 fails as stated: there is a third outcome. Every lease can be acquired (no row
  is locked), yet the write that renames \<^verbatim>\<open>cmu:Schema/a\<close> to the identifier of another stored
  document fails with IntegrityError, not with Conflict, and it does not go through.
\<close>

theorem rename_collision_counterexample:
  "do_transaction (write_schema 100 ''cmu:Schema/a'' doc_z ''A'') [row_a None None, row_z None None]
     = (Inl IntegrityError, [row_a None None, row_z None None])
   \<and> lockable 100 ''A'' (row_a None None) \<and> lockable 100 ''A'' (row_z None None)"
  by code_simp

text \<open>
  Claim C1, amended. On a table in order, a write that changes the identifier of a stored
  document has three outcomes. When the lease of the document or of a document referring to
  it cannot be acquired, it fails with Conflict; otherwise, when the new identifier is
  already the key of a row, it fails with IntegrityError; in both cases the transaction
  leaves the table as it was. Otherwise every referring document is leased to the caller
  and stored re-pointed: in each of its events that referenced the old identifier, the node
  field is the new identifier and the label is the part of the new identifier after its
  last slash; and the document is stored under its new identifier. A re-pointed document no
  longer refers to the old identifier.
\<close>

theorem rename_all_or_nothing:
  assumes "store_ok tbl"
    and "py_str_item sdf_data ''@id'' = Inr new_id"
    and "new_id \<noteq> schema_id"
    and "schema_id \<in> atId ` set tbl"
  shows "do_transaction (write_schema now schema_id sdf_data client_id) tbl =
           (if \<exists>r \<in> set tbl. (atId r = schema_id \<or> referring_row schema_id r)
                                \<and> \<not> lockable now client_id r
            then (Inl HTTPConflict, tbl)
            else if new_id \<in> atId ` set tbl then (Inl IntegrityError, tbl)
            else (Inr (), rename_result now schema_id sdf_data new_id client_id tbl))
       \<and> (\<forall>r \<in> set tbl. referring_row schema_id r \<longrightarrow>
             \<not> document_refers schema_id (repointed_document schema_id new_id (the_doc r)))"
proof -
  from assms(4) obtain t where t: "t \<in> set tbl" "atId t = schema_id" by auto
  have ex: "(\<exists>r \<in> set tbl. (atId r = schema_id \<or> referrer schema_id r) \<and> \<not> lockable now client_id r)
          = (\<exists>r \<in> set tbl. (atId r = schema_id \<or> referring_row schema_id r)
                            \<and> \<not> lockable now client_id r)"
    using referrer_spec[OF assms(1)] by blast
  have 1: "do_transaction (write_schema now schema_id sdf_data client_id) tbl =
           (if \<exists>r \<in> set tbl. (atId r = schema_id \<or> referring_row schema_id r)
                                \<and> \<not> lockable now client_id r
            then (Inl HTTPConflict, tbl)
            else if new_id \<in> atId ` set tbl then (Inl IntegrityError, tbl)
            else (Inr (), rename_result now schema_id sdf_data new_id client_id tbl))"
    unfolding do_transaction_def write_schema_outcomes[OF assms(1-3) t] ex renamed_spec[OF assms(1)]
    by simp
  have 2: "\<not> document_refers schema_id (repointed_document schema_id new_id (the_doc r))"
    if r: "r \<in> set tbl" "referring_row schema_id r" for r
  proof -
    have q: "quarantined r = 0" using r(2) by (simp add: referring_row_def)
    note f = store_ok_rows[OF assms(1) r(1) q]
    have d: "document_refers schema_id (the_doc r)"
      using r(2) f by (auto simp: referring_row_def split: stored_text.splits)
    show ?thesis
      using repointed_document_not_referring[OF _ d] f assms(3) by simp
  qed
  show ?thesis using 1 2 by blast
qed

lemma rename_example_facts:
  "store_ok [row_a None None, row_b ts h (doc_b ''cmu:Schema/a'' ''a'')]"
  "py_str_item doc_z ''@id'' = Inr ''cmu:Schema/z''"
  "referring_row ''cmu:Schema/a'' (row_b ts h (doc_b ''cmu:Schema/a'' ''a''))"
  "\<not> referring_row ''cmu:Schema/a'' (row_a None None)"
  "repointed_document ''cmu:Schema/a'' ''cmu:Schema/z'' (doc_b ''cmu:Schema/a'' ''a'')
     = doc_b ''cmu:Schema/z'' ''z''"
  "\<not> document_refers ''cmu:Schema/a'' (doc_b ''cmu:Schema/z'' ''z'')"
  by (simp_all add: store_ok_def primary_key_def row_ok_def row_a_def row_b_def doc_a_def doc_b_def
      doc_z_def doc_shape_def is_obj_def py_str_item_def py_item_def ebind_def referring_row_def
      document_refers_def events_of_def field_def references_node_def repointed_document_def
      repointed_event_def with_field_def)

theorem rename_all_or_nothing_witness:
  "store_ok [row_a None None, row_b None None (doc_b ''cmu:Schema/a'' ''a'')]
   \<and> do_transaction (write_schema 100 ''cmu:Schema/a'' doc_z ''A'')
        [row_a None None, row_b None None (doc_b ''cmu:Schema/a'' ''a'')]
       = (Inr (), [row_z (Some 100) (Some ''A''),
                   row_b (Some 100) (Some ''A'') (doc_b ''cmu:Schema/z'' ''z'')])
   \<and> do_transaction (write_schema 100 ''cmu:Schema/a'' doc_z ''A'')
        [row_a None None, row_b (Some 90) (Some ''B'') (doc_b ''cmu:Schema/a'' ''a'')]
       = (Inl HTTPConflict, [row_a None None, row_b (Some 90) (Some ''B'') (doc_b ''cmu:Schema/a'' ''a'')])
   \<and> \<not> document_refers ''cmu:Schema/a'' (doc_b ''cmu:Schema/z'' ''z'')"
proof -
  have ne: "''cmu:Schema/z'' \<noteq> ''cmu:Schema/a''" by simp
  have ex: "''cmu:Schema/a'' \<in> atId ` set [row_a None None, row_b ts h (doc_b ''cmu:Schema/a'' ''a'')]" for ts h
    by (simp add: row_a_def)
  note f = rename_example_facts
  note good = rename_all_or_nothing[OF f(1)[of None None] f(2) ne ex, of 100 "''A''"]
  note bad = rename_all_or_nothing[OF f(1)[of "Some 90" "Some ''B''"] f(2) ne ex, of 100 "''A''"]
  have lk: "lockable 100 ''A'' (row_a None None)" "lockable 100 ''A'' (row_b None None d)"
     "\<not> lockable 100 ''A'' (row_b (Some 90) (Some ''B'') d)" for d
    by (simp_all add: lockable_def lock_is_valid_def row_a_def row_b_def LOCK_LIFETIME_def)
  have ids: "atId (row_a None None) = ''cmu:Schema/a''" "atId (row_b ts h d) = ''cmu:Schema/b''" for ts h d
    by (simp_all add: row_a_def row_b_def)
  have rn: "rename_result 100 ''cmu:Schema/a'' doc_z ''cmu:Schema/z'' ''A''
              [row_a None None, row_b None None (doc_b ''cmu:Schema/a'' ''a'')]
            = [row_z (Some 100) (Some ''A''),
               row_b (Some 100) (Some ''A'') (doc_b ''cmu:Schema/z'' ''z'')]"
    using f(3)[of None None] f(5)
    by (simp add: rename_result_def ids) (simp add: row_a_def row_b_def row_z_def the_doc_def)
  have 1: "do_transaction (write_schema 100 ''cmu:Schema/a'' doc_z ''A'')
        [row_a None None, row_b None None (doc_b ''cmu:Schema/a'' ''a'')]
       = (Inr (), [row_z (Some 100) (Some ''A''),
                   row_b (Some 100) (Some ''A'') (doc_b ''cmu:Schema/z'' ''z'')])"
    using good[THEN conjunct1] lk ids f(4) by (simp add: rn)
  have 2: "do_transaction (write_schema 100 ''cmu:Schema/a'' doc_z ''A'')
        [row_a None None, row_b (Some 90) (Some ''B'') (doc_b ''cmu:Schema/a'' ''a'')]
       = (Inl HTTPConflict, [row_a None None, row_b (Some 90) (Some ''B'') (doc_b ''cmu:Schema/a'' ''a'')])"
    using bad[THEN conjunct1] lk f(3) by simp
  have 3: "\<not> document_refers ''cmu:Schema/a'' (doc_b ''cmu:Schema/z'' ''z'')"
    using good[THEN conjunct2] f(3)[of None None] f(5)
    by (simp add: row_b_def the_doc_def)
  show ?thesis using f(1)[of None None] 1 2 3 by simp
qed

end
